theory Spec2Isabelle
  imports Main "HOL-Library.Finite_Map" "HOL-Library.Char_ord" "HOL-Library.List_Lexorder"
begin

section \<open>The downloader \<open>arMa.py\<close>: data model\<close>

text \<open>
  The program talks to three parts of the outside world: the network, the file system and
  the process environment (console, clock, thread pool, subprocesses). The model makes
  them explicit in the following way.

  \<^item> The file system is a finite map from path strings to file contents. Only regular
    files are entries; \<open>os.makedirs\<close> therefore leaves the map as it is. Paths are compared
    as strings. File operations on the program's own paths are taken to succeed, apart from
    \<open>os.remove\<close> of a missing file, which raises.
  \<^item> What the network answers is an input of the model (one answer per attempt).
  \<^item> Every call that leaves the program (an HTTP request, a write, a rename, a sleep, a
    console line, a pool or subprocess call, an exit) is recorded, in program order, as an
    \<open>event\<close>. The file system reached after a run is obtained by replaying the events.
\<close>

type_synonym fs = "(string, string) fmap"

type_synonym headers = "(string \<times> string) list"

datatype error =
    RuntimeError string
  | ValueError string
  | FileNotFoundError string
  | RequestException string

fun message :: "error \<Rightarrow> string" where
  "message (RuntimeError m) = m"
| "message (ValueError m) = m"
| "message (FileNotFoundError m) = m"
| "message (RequestException m) = m"

text \<open>
  A streamed HTTP response: the status line, the \<open>Content-Length\<close> header when the server
  sent one, the chunks that \<open>iter_content\<close> yields, and the exception that ends the stream
  early, if any.
\<close>

record response =
  status :: nat
  content_length :: "nat option"
  chunks :: "string list"
  stream_error :: "error option"

datatype attempt = Get_raises error | Got response

datatype event =
    Get string headers
  | Head string
  | Progress "nat option" nat
  | Open string string
  | Write string string
  | Rename string string
  | Remove string
  | Makedirs string
  | Print string
  | Sleep nat
  | Pool int
  | Submit string string nat nat
  | Pool_shutdown bool
  | Run "string list" int "string option"
  | Exit nat

text \<open>
  \<open>Progress total initial\<close> is the creation of a progress bar, \<open>Pool n\<close> the call
  \<open>ThreadPoolExecutor(max_workers=n)\<close>, \<open>Pool_shutdown c\<close> the shutdown that leaving the
  \<open>with\<close> block performs (\<open>c\<close> tells whether pending jobs are cancelled), and
  \<open>Run cmd code out\<close> a subprocess that exits with \<open>code\<close> and, when \<open>out\<close> is given, has
  written these bytes to the file named by the last word of \<open>cmd\<close>.
\<close>

definition path_exists :: "fs \<Rightarrow> string \<Rightarrow> bool" where
  "path_exists fs p = (fmlookup fs p \<noteq> None)"

definition getsize :: "fs \<Rightarrow> string \<Rightarrow> nat" where
  "getsize fs p = (case fmlookup fs p of Some b \<Rightarrow> length b | None \<Rightarrow> 0)"

fun apply_event :: "event \<Rightarrow> fs \<Rightarrow> fs" where
  "apply_event (Open p m) fs =
     (if m = ''ab'' \<and> path_exists fs p then fs else fmupd p [] fs)"
| "apply_event (Write p b) fs =
     fmupd p ((case fmlookup fs p of Some c \<Rightarrow> c | None \<Rightarrow> []) @ b) fs"
| "apply_event (Rename src dst) fs =
     (case fmlookup fs src of Some c \<Rightarrow> fmupd dst c (fmdrop src fs) | None \<Rightarrow> fs)"
| "apply_event (Remove p) fs = fmdrop p fs"
| "apply_event (Run cmd code out) fs =
     (case out of Some b \<Rightarrow> fmupd (last cmd) b fs | None \<Rightarrow> fs)"
| "apply_event _ fs = fs"

fun apply_events :: "event list \<Rightarrow> fs \<Rightarrow> fs" where
  "apply_events [] fs = fs"
| "apply_events (e # es) fs = apply_events es (apply_event e fs)"

section \<open>Strings and paths\<close>

definition HEADERS :: headers where
  "HEADERS = [(''User-Agent'', ''Mozilla/5.0'')]"

definition MAX_RETRIES :: nat where
  "MAX_RETRIES = 5"

definition RETRY_BACKOFF :: nat where
  "RETRY_BACKOFF = 2"

definition digit_char :: "nat \<Rightarrow> char" where
  "digit_char d = char_of (48 + d)"

text \<open>The decimal text of a non-negative integer, as an f-string prints it.\<close>

function str_nat :: "nat \<Rightarrow> string" where
  "str_nat n =
     (if n < 10 then [digit_char n] else str_nat (n div 10) @ [digit_char (n mod 10)])"
  by pat_completeness auto
termination
  by (relation "measure id") auto

declare str_nat.simps [simp del]

definition str_int :: "int \<Rightarrow> string" where
  "str_int i = (if i < 0 then ''-'' @ str_nat (nat (- i)) else str_nat (nat i))"

text \<open>\<open>os.path.join\<close> of two components on a POSIX system.\<close>

definition path_join :: "string \<Rightarrow> string \<Rightarrow> string" where
  "path_join a b =
     (if take 1 b = ''/'' then b
      else if a = [] \<or> last a = CHR ''/'' then a @ b
      else a @ ''/'' @ b)"

text \<open>The substring test \<open>needle in hay\<close>.\<close>

fun contains :: "string \<Rightarrow> string \<Rightarrow> bool" where
  "contains needle [] = (needle = [])"
| "contains needle (c # cs) =
     (take (length needle) (c # cs) = needle \<or> contains needle cs)"

section \<open>\<open>ensure_unique_filename\<close>\<close>

text \<open>
  The \<open>while\<close> loop of \<open>ensure_unique_filename\<close>, with its two variables \<open>counter\<close> and
  \<open>candidate\<close>. It ends because the numbered candidates are pairwise different and only
  finitely many paths exist.
\<close>

function unique_loop ::
  "fs \<Rightarrow> string \<Rightarrow> string \<Rightarrow> string \<Rightarrow> nat \<Rightarrow> string \<Rightarrow> string" where
  "unique_loop fs directory base_name extension counter candidate =
     (if path_exists fs candidate
      then unique_loop fs directory base_name extension (counter + 1)
             (path_join directory (base_name @ ''_'' @ str_nat counter @ extension))
      else candidate)"
  by pat_completeness auto

definition numbered :: "string \<Rightarrow> string \<Rightarrow> string \<Rightarrow> nat \<Rightarrow> string" where
  "numbered directory base_name extension counter =
     path_join directory (base_name @ ''_'' @ str_nat counter @ extension)"

definition pending :: "fs \<Rightarrow> string \<Rightarrow> string \<Rightarrow> string \<Rightarrow> nat \<Rightarrow> nat set" where
  "pending fs d b e c = {k. c \<le> k \<and> path_exists fs (numbered d b e k)}"

lemma digit_char_inj: "a < 10 \<Longrightarrow> b < 10 \<Longrightarrow> digit_char a = digit_char b \<Longrightarrow> a = b"
proof -
  assume a: "a < 10" and b: "b < 10" and e: "digit_char a = digit_char b"
  from e have "of_char (char_of (48 + a) :: char) = (of_char (char_of (48 + b) :: char) :: nat)"
    by (simp add: digit_char_def)
  with a b show "a = b" by simp
qed

lemma str_nat_nonempty: "str_nat n \<noteq> []"
  by (subst str_nat.simps) simp

lemma str_nat_inj: "str_nat m = str_nat n \<Longrightarrow> m = n"
proof (induction m arbitrary: n rule: str_nat.induct)
  case (1 m)
  show ?case
  proof (cases "m < 10")
    case True
    note m = this
    show ?thesis
    proof (cases "n < 10")
      case True
      with m "1.prems" show ?thesis
        by (simp add: str_nat.simps[of m] str_nat.simps[of n] digit_char_inj)
    next
      case False
      with m "1.prems" show ?thesis
        using str_nat_nonempty[of "n div 10"]
        by (simp add: str_nat.simps[of m] str_nat.simps[of n])
    qed
  next
    case False
    note m = this
    show ?thesis
    proof (cases "n < 10")
      case True
      with m "1.prems" show ?thesis
        using str_nat_nonempty[of "m div 10"]
        by (simp add: str_nat.simps[of m] str_nat.simps[of n])
    next
      case False
      with m "1.prems" have e: "str_nat (m div 10) = str_nat (n div 10)"
        and d: "digit_char (m mod 10) = digit_char (n mod 10)"
        by (simp_all add: str_nat.simps[of m] str_nat.simps[of n])
      from "1.IH"[OF m e] have q: "m div 10 = n div 10" .
      from d have r: "m mod 10 = n mod 10" by (simp add: digit_char_inj)
      from q r show ?thesis by (metis div_mult_mod_eq)
    qed
  qed
qed

lemma path_join_suffix_inj:
  "path_join d (b @ CHR ''_'' # s) = path_join d (b @ CHR ''_'' # t) \<Longrightarrow> s = t"
  by (cases b) (auto simp: path_join_def split: if_splits)

lemma numbered_inj: "numbered d b e j = numbered d b e k \<Longrightarrow> j = k"
  unfolding numbered_def
  using path_join_suffix_inj[of d b "str_nat j @ e" "str_nat k @ e"]
  by (simp add: str_nat_inj)

lemma finite_numbered: "finite {k. path_exists fs (numbered d b e k)}"
proof -
  have "{k. path_exists fs (numbered d b e k)} = numbered d b e -` fmdom' fs"
    by (auto simp: path_exists_def fmlookup_dom'_iff)
  moreover have "inj (numbered d b e)"
    by (rule injI) (rule numbered_inj)
  ultimately show ?thesis
    by (simp add: finite_vimageI)
qed

lemma finite_pending: "finite (pending fs d b e c)"
  unfolding pending_def using finite_numbered[of fs d b e] by simp

lemma pending_step:
  "card (pending fs d b e (Suc c)) + (if path_exists fs (numbered d b e c) then 1 else 0)
     = card (pending fs d b e c)"
proof (cases "path_exists fs (numbered d b e c)")
  case True
  then have "pending fs d b e c = insert c (pending fs d b e (Suc c))"
    by (auto simp: pending_def le_Suc_eq)
  moreover have "c \<notin> pending fs d b e (Suc c)" by (simp add: pending_def)
  ultimately show ?thesis using True finite_pending[of fs d b e "Suc c"] by simp
next
  case False
  then have "\<And>x. c \<le> x \<Longrightarrow> path_exists fs (numbered d b e x) \<Longrightarrow> Suc c \<le> x"
    by (metis Suc_leI le_neq_implies_less)
  then have "pending fs d b e c = pending fs d b e (Suc c)"
    by (auto simp: pending_def)
  with False show ?thesis by simp
qed

termination unique_loop
proof (relation "measure (\<lambda>(fs, d, b, e, c, cand).
          card (pending fs d b e c) + (if path_exists fs cand then 1 else 0))", goal_cases)
  case 1
  show ?case by simp
next
  case (2 fs directory base_name extension counter candidate)
  then show ?case
    using pending_step[of fs directory base_name extension counter]
    by (simp add: numbered_def)
qed

declare unique_loop.simps [simp del]

definition ensure_unique_filename :: "fs \<Rightarrow> string \<Rightarrow> string \<Rightarrow> string \<Rightarrow> string" where
  "ensure_unique_filename fs directory filename extension =
     unique_loop fs directory filename extension 1
       (path_join directory (filename @ extension))"

section \<open>\<open>download_segment\<close>\<close>

definition local_filename :: "string \<Rightarrow> nat \<Rightarrow> string" where
  "local_filename directory idx = path_join directory (''segment_'' @ str_nat idx @ ''.ts'')"

definition temp_filename :: "string \<Rightarrow> nat \<Rightarrow> string" where
  "temp_filename directory idx = local_filename directory idx @ ''.part''"

text \<open>The inner loop over \<open>iter_content\<close>: an empty chunk is skipped.\<close>

fun write_chunks :: "string \<Rightarrow> string list \<Rightarrow> event list" where
  "write_chunks p [] = []"
| "write_chunks p (c # cs) = (if c \<noteq> [] then [Write p c] else []) @ write_chunks p cs"

text \<open>\<open>raise_for_status\<close> raises for the 4xx and 5xx codes and for no other.\<close>

definition raise_for_status :: "response \<Rightarrow> error option" where
  "raise_for_status r =
     (if 400 \<le> status r \<and> status r < 600
      then Some (RequestException (str_nat (status r) @ '' Error''))
      else None)"

text \<open>
  The body of the \<open>try\<close> block for one attempt. The result is the list of events and either
  the exception that the \<open>except\<close> clause catches or the returned path.
\<close>

definition try_once ::
  "attempt \<Rightarrow> string \<Rightarrow> headers \<Rightarrow> nat \<Rightarrow> string \<Rightarrow> string \<Rightarrow> event list \<times> (error + string)" where
  "try_once answer url hdrs downloaded temp local =
     (case answer of
        Get_raises e \<Rightarrow> ([Get url hdrs], Inl e)
      | Got r \<Rightarrow>
          (case raise_for_status r of
             Some e \<Rightarrow> ([Get url hdrs], Inl e)
           | None \<Rightarrow>
               (let total_size =
                      (case content_length r of
                         Some n \<Rightarrow> Some (n + downloaded)
                       | None \<Rightarrow> None);
                    evs = [Get url hdrs, Open temp ''ab'', Progress total_size downloaded]
                            @ write_chunks temp (chunks r)
                in case stream_error r of
                     Some e \<Rightarrow> (evs, Inl e)
                   | None \<Rightarrow> (evs @ [Rename temp local], Inr local))))"

text \<open>The \<open>for attempt in range(1, retries+1)\<close> loop, over the list of attempt numbers.\<close>

fun attempts_loop ::
  "(nat \<Rightarrow> attempt) \<Rightarrow> string \<Rightarrow> headers \<Rightarrow> nat \<Rightarrow> string \<Rightarrow> string \<Rightarrow> nat \<Rightarrow> nat
     \<Rightarrow> nat list \<Rightarrow> event list \<times> (error + string)" where
  "attempts_loop net url hdrs downloaded temp local idx retries [] =
     ([], Inl (RuntimeError (''Failed to download segment '' @ str_nat idx @ '' after ''
                             @ str_nat retries @ '' retries.'')))"
| "attempts_loop net url hdrs downloaded temp local idx retries (attempt # rest) =
     (case try_once (net attempt) url hdrs downloaded temp local of
        (evs, Inr p) \<Rightarrow> (evs, Inr p)
      | (evs, Inl e) \<Rightarrow>
          (let (more, res) = attempts_loop net url hdrs downloaded temp local idx retries rest
           in (evs @ [Print (''[!] Segment '' @ str_nat idx @ '' download attempt ''
                             @ str_nat attempt @ '' failed: '' @ message e),
                      Sleep (RETRY_BACKOFF ^ attempt)] @ more, res)))"

text \<open>
  \<open>fs\<close> is the file system when the job starts and \<open>net\<close> tells what the network does at each
  attempt. The size of the partial file and the request headers are computed once, before the
  loop, as in the source.
\<close>

definition download_segment ::
  "fs \<Rightarrow> (nat \<Rightarrow> attempt) \<Rightarrow> string \<Rightarrow> string \<Rightarrow> nat \<Rightarrow> nat \<Rightarrow> nat
     \<Rightarrow> event list \<times> (error + string)" where
  "download_segment fs net url directory idx total_n retries =
     (let local = local_filename directory idx;
          temp = temp_filename directory idx;
          downloaded = (if path_exists fs temp then getsize fs temp else 0);
          hdrs = HEADERS @ (if downloaded > 0
                            then [(''Range'', ''bytes='' @ str_nat downloaded @ ''-'')]
                            else [])
      in attempts_loop net url hdrs downloaded temp local idx retries [1..<retries + 1])"

section \<open>\<open>download_and_merge_segments\<close>\<close>

datatype outcome = Returned | Exited nat | Raised error

text \<open>
  The loop over \<open>as_completed\<close>. \<open>completions\<close> lists the finished jobs in the order in which
  they finish, each with its index and with what \<open>download_segment\<close> returned or raised.
\<close>

fun collect ::
  "(nat \<times> (error + string)) list \<Rightarrow> string list \<Rightarrow> (nat \<times> error) + string list" where
  "collect [] segment_files = Inr segment_files"
| "collect ((idx, Inr segment_file) # cs) segment_files =
     collect cs (segment_files @ [segment_file])"
| "collect ((idx, Inl e) # cs) segment_files = Inl (idx, e)"

text \<open>The two cleanup statements: \<open>os.remove\<close> raises when the file is missing.\<close>

fun cleanup :: "fs \<Rightarrow> string list \<Rightarrow> event list \<times> error option" where
  "cleanup fs [] = ([], None)"
| "cleanup fs (p # ps) =
     (if path_exists fs p
      then (let (evs, r) = cleanup (fmdrop p fs) ps in (Remove p # evs, r))
      else ([], Some (FileNotFoundError p)))"

definition manifest_line :: "(string \<Rightarrow> string) \<Rightarrow> string \<Rightarrow> string" where
  "manifest_line abspath seg_file = ''file '' @ [CHR 0x27] @ abspath seg_file @ [CHR 0x27, CHR 0x0A]"

definition check_mark :: string where
  "check_mark = [CHR 0xE2, CHR 0x9C, CHR 0x94]"

text \<open>
  \<open>fs\<close> is the file system once the pool has finished, \<open>abspath\<close> stands for
  \<open>os.path.abspath\<close>, and \<open>mux_code\<close>, \<open>mux_out\<close> are what the muxer subprocess does: its exit
  code and the bytes it writes to the output file, if it writes it. The pool constructor
  refuses a worker count below one with a \<open>ValueError\<close>; leaving the \<open>with\<close> block shuts the
  pool down and waits, without cancelling.
\<close>

definition download_and_merge_segments ::
  "fs \<Rightarrow> (string \<Rightarrow> string) \<Rightarrow> string list \<Rightarrow> string \<Rightarrow> string \<Rightarrow> int
     \<Rightarrow> (nat \<times> (error + string)) list \<Rightarrow> int \<Rightarrow> string option
     \<Rightarrow> event list \<times> outcome" where
  "download_and_merge_segments fs abspath segments directory filename parallel
       completions mux_code mux_out =
     (let total_n = length segments;
          start = [Makedirs directory,
                   Print (''[+] Starting parallel download of '' @ str_nat total_n
                          @ '' segments with '' @ str_int parallel @ '' workers''),
                   Pool parallel]
      in if parallel \<le> 0
         then (start, Raised (ValueError ''max_workers must be greater than 0''))
         else
           (let submits = map (\<lambda>(i, seg). Submit seg directory (i + 1) total_n)
                              (enumerate 0 segments)
            in case collect completions [] of
                 Inl (idx, e) \<Rightarrow>
                   (start @ submits @
                      [Print (''[!] Segment '' @ str_nat idx @ '' failed to download: ''
                              @ message e),
                       Pool_shutdown False, Exit 1],
                    Exited 1)
               | Inr segment_files \<Rightarrow>
                   (let concat_file = path_join directory (filename @ ''_concat.txt'');
                        writes = [Pool_shutdown False, Open concat_file ''w'']
                                 @ map (\<lambda>seg_file. Write concat_file (manifest_line abspath seg_file))
                                       (sort segment_files);
                        fs1 = apply_events writes fs;
                        mp4_file = ensure_unique_filename fs1 directory filename ''.mp4'';
                        cmd = [''ffmpeg'', ''-y'', ''-f'', ''concat'', ''-safe'', ''0'', ''-i'',
                               concat_file, ''-c'', ''copy'', mp4_file];
                        merge = [Print ''[+] Merging segments into MP4...'',
                                 Run cmd mux_code mux_out,
                                 Print (''['' @ check_mark @ ''] Saved merged video as: '' @ mp4_file)];
                        fs2 = apply_events merge fs1;
                        (removes, err) = cleanup fs2 (segment_files @ [concat_file])
                    in (start @ submits @ writes @ merge @ removes,
                        case err of None \<Rightarrow> Returned | Some e \<Rightarrow> Raised e))))"

section \<open>\<open>download_file\<close>\<close>

record head_response =
  content_type :: string
  head_content_length :: "nat option"

text \<open>
  The choice of the extension. \<open>url_ext\<close> is the extension that \<open>os.path.splitext\<close> finds in
  the path of the URL (empty when there is none).
\<close>

definition choose_extension :: "string \<Rightarrow> string \<Rightarrow> string" where
  "choose_extension url_ext ctype =
     (let ext = (if url_ext = [] \<and> contains ''video'' ctype
                 then (if contains ''mp4'' ctype then ''.mp4''
                       else if contains ''mpeg'' ctype then ''.mpeg''
                       else if contains ''ts'' ctype then ''.ts''
                       else if contains ''webm'' ctype then ''.webm''
                       else if contains ''ogg'' ctype then ''.ogg''
                       else url_ext)
                 else url_ext)
      in if ext = [] then ''.bin'' else ext)"

text \<open>
  \<open>head\<close> is the answer to the HEAD request (or the exception it raises) and \<open>answer\<close> the
  answer to the GET request. Nothing is caught in this function.
\<close>

definition download_file ::
  "fs \<Rightarrow> error + head_response \<Rightarrow> attempt \<Rightarrow> string \<Rightarrow> string \<Rightarrow> string \<Rightarrow> string \<Rightarrow> bool
     \<Rightarrow> event list \<times> (error + string)" where
  "download_file fs head answer url url_ext directory filename resume =
     (case head of
        Inl e \<Rightarrow> ([Makedirs directory, Head url], Inl e)
      | Inr h \<Rightarrow>
          (let ext = choose_extension url_ext (content_type h);
               full_path = ensure_unique_filename fs directory filename ext;
               mode = (if resume \<and> path_exists fs full_path then ''ab'' else ''wb'');
               downloaded = (if mode = ''ab'' then getsize fs full_path else 0);
               hdrs = HEADERS @ (if mode = ''ab''
                                 then [(''Range'', ''bytes='' @ str_nat downloaded @ ''-'')]
                                 else []);
               total_size = (case head_content_length h of
                               Some n \<Rightarrow> Some (n + downloaded)
                             | None \<Rightarrow> None);
               evs = [Makedirs directory, Head url,
                      Print (''[+] Downloading file: '' @ url), Get url hdrs]
           in case answer of
                Get_raises e \<Rightarrow> (evs, Inl e)
              | Got r \<Rightarrow>
                  (let body = evs @ [Open full_path mode, Progress total_size downloaded]
                                @ write_chunks full_path (chunks r)
                   in case stream_error r of
                        Some e \<Rightarrow> (body, Inl e)
                      | None \<Rightarrow>
                          (body @ [Print (''['' @ check_mark @ ''] Saved file as: '' @ full_path)],
                           Inr full_path))))"

section \<open>\<open>main\<close>\<close>

record args =
  url_opt :: string
  name_opt :: "string option"
  dir_opt :: string
  parallel_opt :: int

text \<open>
  The parsed options \<open>args.url\<close>, \<open>args.name\<close>, \<open>args.dir\<close> and \<open>args.parallel\<close>. \<open>--url\<close> is
  required, the other three options have defaults. The arguments of \<open>parse_args\<close> are what
  the command line gives, \<open>None\<close> for an option that is absent.
\<close>

definition parse_args :: "string \<Rightarrow> string option \<Rightarrow> string option \<Rightarrow> int option \<Rightarrow> args" where
  "parse_args u n d p =
     \<lparr>url_opt = u, name_opt = n,
      dir_opt = (case d of Some x \<Rightarrow> x | None \<Rightarrow> ''downloads''),
      parallel_opt = (case p of Some k \<Rightarrow> k | None \<Rightarrow> 4)\<rparr>"

datatype call =
    Download_dash string string string
  | Download_and_merge string string string int
  | Download_file string string string

text \<open>
  The dispatch of \<open>main\<close>: which download function it calls, and with which arguments.
  \<open>is_mpd\<close> and \<open>is_m3u8\<close> are the results of the two URL tests and \<open>url_filename\<close> is the result
  of \<open>get_filename_from_url\<close>.
\<close>

definition main :: "bool \<Rightarrow> bool \<Rightarrow> string \<Rightarrow> args \<Rightarrow> call" where
  "main is_mpd is_m3u8 url_filename a =
     (let filename = (case name_opt a of
                        Some n \<Rightarrow> if n \<noteq> [] then n else url_filename
                      | None \<Rightarrow> url_filename)
      in if is_mpd then Download_dash (url_opt a) (dir_opt a) filename
         else if is_m3u8
         then Download_and_merge (url_opt a) (dir_opt a) filename (parallel_opt a)
         else Download_file (url_opt a) (dir_opt a) filename)"

section \<open>Auxiliary notions for the statements\<close>

text \<open>
  The events that leave every path but \<open>temp\<close> alone and touch \<open>temp\<close> only by opening it for
  appending or by writing to it.
\<close>

fun quiet :: "string \<Rightarrow> event \<Rightarrow> bool" where
  "quiet temp (Open p m) = (p = temp \<and> m = ''ab'')"
| "quiet temp (Write p b) = (p = temp)"
| "quiet temp (Rename src dst) = False"
| "quiet temp (Remove p) = False"
| "quiet temp (Run cmd code out) = False"
| "quiet temp e = True"

text \<open>
  The bytes that an event writes.
\<close>

fun written :: "event \<Rightarrow> string" where
  "written (Write p b) = b"
| "written e = []"

text \<open>
  The form of a run of \<open>download_segment\<close>: a failed run is quiet; a successful run is a
  quiet run, in which the temporary file is opened, followed by the rename.
\<close>

definition shape :: "string \<Rightarrow> string \<Rightarrow> event list \<times> (error + string) \<Rightarrow> bool" where
  "shape temp local run =
     (case snd run of
        Inl e \<Rightarrow> list_all (quiet temp) (fst run)
      | Inr p \<Rightarrow> p = local \<and>
          (\<exists>pre. fst run = pre @ [Rename temp local] \<and> list_all (quiet temp) pre
                 \<and> Open temp ''ab'' \<in> set pre))"

text \<open>
  The requests and the sleeps of a run.
\<close>

fun timing :: "event \<Rightarrow> bool" where
  "timing (Get u h) = True"
| "timing (Sleep n) = True"
| "timing e = False"

text \<open>
  An attempt fails when the \<open>try\<close> block raises: the request raises, the status is an error
  status, or the stream breaks.
\<close>

definition attempt_fails :: "attempt \<Rightarrow> bool" where
  "attempt_fails answer =
     (case answer of
        Get_raises e \<Rightarrow> True
      | Got r \<Rightarrow> raise_for_status r \<noteq> None \<or> stream_error r \<noteq> None)"

text \<open>
  Events without effect on the file system, and events that remove no file.
\<close>

fun inert :: "event \<Rightarrow> bool" where
  "inert (Open p m) = False"
| "inert (Write p b) = False"
| "inert (Rename src dst) = False"
| "inert (Remove p) = False"
| "inert (Run cmd code out) = False"
| "inert e = True"

fun keeps :: "event \<Rightarrow> bool" where
  "keeps (Rename src dst) = False"
| "keeps (Remove p) = False"
| "keeps e = True"

text \<open>
  The progress bars of a run.
\<close>

fun is_progress :: "event \<Rightarrow> bool" where
  "is_progress (Progress t i) = True"
| "is_progress e = False"

text \<open>
  The bytes that an attempt receives and writes: the chunks of a response that
  \<open>raise_for_status\<close> accepts, up to the point where the stream ends or breaks.
\<close>

definition received :: "attempt \<Rightarrow> string" where
  "received answer =
     (case answer of
        Get_raises e \<Rightarrow> []
      | Got r \<Rightarrow> if raise_for_status r = None then concat (chunks r) else [])"

text \<open>
  The progress bar that an attempt creates, when its response is accepted.
\<close>

definition bar_of :: "nat \<Rightarrow> attempt \<Rightarrow> event list" where
  "bar_of downloaded answer =
     (case answer of
        Get_raises e \<Rightarrow> []
      | Got r \<Rightarrow>
          if raise_for_status r = None
          then [Progress (case content_length r of
                            Some n \<Rightarrow> Some (n + downloaded)
                          | None \<Rightarrow> None) downloaded]
          else [])"

text \<open>
  The attempts that are made when the first \<open>k\<close> attempts fail and the next one, if there is
  one, does not.
\<close>

definition attempts_made :: "nat \<Rightarrow> nat \<Rightarrow> nat list" where
  "attempts_made k retries = [1..<(if k < retries then k + 1 else k) + 1]"

section \<open>Concrete instances\<close>

text \<open>
  Concrete file systems, servers and completion orders, used as instances below.
\<close>

definition two_movies :: fs where
  "two_movies = fmupd ''d/movie.mp4'' ''x'' (fmupd ''d/movie_1.mp4'' ''y'' fmempty)"

definition partial_fs :: fs where
  "partial_fs = fmupd ''/d/segment_1.ts.part'' ''ab'' fmempty"

definition resuming_server :: "nat \<Rightarrow> attempt" where
  "resuming_server a =
     (if a = 1
      then Got \<lparr>status = 206, content_length = Some 4, chunks = [''cd''],
                stream_error = Some (RequestException ''connection reset'')\<rparr>
      else Got \<lparr>status = 206, content_length = Some 4, chunks = [''cdef''],
                stream_error = None\<rparr>)"

definition dead_server :: "nat \<Rightarrow> attempt" where
  "dead_server a = Get_raises (RequestException ''timed out'')"

definition ignoring_server :: "nat \<Rightarrow> attempt" where
  "ignoring_server a =
     Got \<lparr>status = 200, content_length = Some 4, chunks = [''abcd''], stream_error = None\<rparr>"

definition video_head :: "error + head_response" where
  "video_head = Inr \<lparr>content_type = ''video/mp4'', head_content_length = Some 4\<rparr>"

definition two_files :: fs where
  "two_files = fmupd ''/d/segment_1.ts'' ''aa'' (fmupd ''/d/segment_2.ts'' ''bb'' fmempty)"

definition two_done :: "(nat \<times> (error + string)) list" where
  "two_done = [(2, Inr ''/d/segment_2.ts''), (1, Inr ''/d/segment_1.ts'')]"

definition ten_files :: fs where
  "ten_files = fmap_of_list (map (\<lambda>i. (local_filename ''/d'' i, ''x'')) [1..<11])"

definition ten_segments :: "string list" where
  "ten_segments = map (\<lambda>i. ''http://h/'' @ str_nat i @ ''.ts'') [1..<11]"

definition ten_done :: "(nat \<times> (error + string)) list" where
  "ten_done = map (\<lambda>i. (i, Inr (local_filename ''/d'' i))) [1..<11]"

definition one_failed :: "(nat \<times> (error + string)) list" where
  "one_failed = [(1, Inl (RuntimeError ''Failed to download segment 1 after 5 retries.'')),
                 (2, Inr ''/d/segment_2.ts''),
                 (3, Inr ''/d/segment_3.ts'')]"

section \<open>Lemmas\<close>

lemma unique_loop_free: "\<not> path_exists fs (unique_loop fs d b e c cand)"
proof (induction fs d b e c cand rule: unique_loop.induct)
  case (1 fs d b e c cand)
  then show ?case by (subst unique_loop.simps) simp
qed

lemma unique_loop_first: "\<not> path_exists fs cand \<Longrightarrow> unique_loop fs d b e c cand = cand"
  by (subst unique_loop.simps) simp

lemma unique_loop_numbered:
  "path_exists fs cand \<Longrightarrow>
     \<exists>k\<ge>c. unique_loop fs d b e c cand = numbered d b e k
            \<and> (\<forall>j. c \<le> j \<and> j < k \<longrightarrow> path_exists fs (numbered d b e j))"
proof (induction fs d b e c cand rule: unique_loop.induct)
  case (1 fs d b e c cand)
  let ?next = "path_join d (b @ ''_'' @ str_nat c @ e)"
  have step: "unique_loop fs d b e c cand = unique_loop fs d b e (c + 1) ?next"
    using "1.prems" by (subst unique_loop.simps) simp
  show ?case
  proof (cases "path_exists fs ?next")
    case False
    then have "unique_loop fs d b e c cand = numbered d b e c"
      using step by (simp add: unique_loop_first numbered_def)
    then show ?thesis by auto
  next
    case True
    from "1.IH"[OF "1.prems" True] obtain k where k: "c + 1 \<le> k"
      "unique_loop fs d b e (c + 1) ?next = numbered d b e k"
      "\<forall>j. c + 1 \<le> j \<and> j < k \<longrightarrow> path_exists fs (numbered d b e j)"
      by blast
    have "\<forall>j. c \<le> j \<and> j < k \<longrightarrow> path_exists fs (numbered d b e j)"
    proof (intro allI impI)
      fix j assume j: "c \<le> j \<and> j < k"
      show "path_exists fs (numbered d b e j)"
      proof (cases "j = c")
        case True
        with \<open>path_exists fs ?next\<close> show ?thesis by (simp add: numbered_def)
      next
        case False
        with j k(3) show ?thesis by simp
      qed
    qed
    with k step show ?thesis by (intro exI[of _ k]) simp
  qed
qed

lemma apply_events_append: "apply_events (xs @ ys) fs = apply_events ys (apply_events xs fs)"
  by (induction xs arbitrary: fs) simp_all

lemma quiet_other:
  "list_all (quiet temp) evs \<Longrightarrow> p \<noteq> temp \<Longrightarrow> fmlookup (apply_events evs fs) p = fmlookup fs p"
proof (induction evs arbitrary: fs)
  case Nil
  then show ?case by simp
next
  case (Cons e evs)
  then show ?case by (cases e) (auto simp: path_exists_def)
qed

lemma quiet_grows:
  "list_all (quiet temp) evs \<Longrightarrow> fmlookup fs temp = Some c \<Longrightarrow>
     fmlookup (apply_events evs fs) temp = Some (c @ concat (map written evs))"
proof (induction evs arbitrary: fs c)
  case Nil
  then show ?case by simp
next
  case (Cons e evs)
  then show ?case by (cases e) (auto simp: path_exists_def)
qed

lemma quiet_keeps:
  "list_all (quiet temp) evs \<Longrightarrow> path_exists fs temp \<Longrightarrow> path_exists (apply_events evs fs) temp"
  using quiet_grows[of temp evs fs] by (auto simp: path_exists_def)

lemma quiet_opened:
  "list_all (quiet temp) evs \<Longrightarrow> (\<exists>p x. Open p x \<in> set evs \<or> Write p x \<in> set evs) \<Longrightarrow>
     path_exists (apply_events evs fs) temp"
proof (induction evs arbitrary: fs)
  case Nil
  then show ?case by simp
next
  case (Cons e evs)
  show ?case
  proof (cases "\<exists>p x. e = Open p x \<or> e = Write p x")
    case True
    with Cons.prems(1) have "path_exists (apply_event e fs) temp"
      by (auto simp: path_exists_def)
    moreover from Cons.prems(1) have "list_all (quiet temp) evs" by simp
    ultimately show ?thesis using quiet_keeps by simp
  next
    case False
    with Cons.prems(2) have "\<exists>p x. Open p x \<in> set evs \<or> Write p x \<in> set evs" by auto
    moreover from Cons.prems(1) have "list_all (quiet temp) evs" by simp
    ultimately show ?thesis using Cons.IH by simp
  qed
qed

lemma quiet_write_chunks: "list_all (quiet temp) (write_chunks temp cs)"
  by (induction cs) simp_all

lemma try_once_shape: "shape temp local (try_once answer url hdrs downloaded temp local)"
  by (auto simp: shape_def try_once_def Let_def quiet_write_chunks
           split: attempt.splits option.splits)

lemma attempts_loop_shape:
  "shape temp local (attempts_loop net url hdrs downloaded temp local idx retries as)"
proof (induction as)
  case Nil
  then show ?case by (simp add: shape_def)
next
  case (Cons a as)
  obtain evs res where t: "try_once (net a) url hdrs downloaded temp local = (evs, res)"
    by (cases "try_once (net a) url hdrs downloaded temp local")
  obtain more res' where m:
    "attempts_loop net url hdrs downloaded temp local idx retries as = (more, res')"
    by (cases "attempts_loop net url hdrs downloaded temp local idx retries as")
  have st: "shape temp local (evs, res)" using try_once_shape[of temp local "net a" url hdrs downloaded] t by simp
  have sm: "shape temp local (more, res')" using Cons.IH m by simp
  show ?case
  proof (cases res)
    case (Inr p)
    with t st show ?thesis by simp
  next
    case (Inl e)
    with st have q: "list_all (quiet temp) evs" by (simp add: shape_def)
    show ?thesis
    proof (cases res')
      case (Inl e')
      with sm q t m \<open>res = Inl e\<close> show ?thesis by (simp add: shape_def)
    next
      case (Inr p)
      with sm obtain pre where pre: "p = local" "more = pre @ [Rename temp local]"
        "list_all (quiet temp) pre" "Open temp ''ab'' \<in> set pre"
        by (auto simp: shape_def)
      let ?msg = "Print (''[!] Segment '' @ str_nat idx @ '' download attempt ''
                             @ str_nat a @ '' failed: '' @ message e)"
      have "evs @ [?msg, Sleep (RETRY_BACKOFF ^ a)] @ more
              = (evs @ [?msg, Sleep (RETRY_BACKOFF ^ a)] @ pre) @ [Rename temp local]"
        using pre(2) by simp
      moreover have "list_all (quiet temp) (evs @ [?msg, Sleep (RETRY_BACKOFF ^ a)] @ pre)"
        using q pre(3) by simp
      moreover have "Open temp ''ab'' \<in> set (evs @ [?msg, Sleep (RETRY_BACKOFF ^ a)] @ pre)"
        using pre(4) by simp
      ultimately show ?thesis
        using t m \<open>res = Inl e\<close> Inr pre(1) unfolding shape_def
        by (simp del: append_assoc)
    qed
  qed
qed

lemma download_segment_shape:
  "shape (temp_filename directory idx) (local_filename directory idx)
         (download_segment fs net url directory idx total_n retries)"
  unfolding download_segment_def Let_def by (rule attempts_loop_shape)

lemma temp_not_local: "temp_filename directory idx \<noteq> local_filename directory idx"
  by (simp add: temp_filename_def)

lemma timing_write_chunks: "filter timing (write_chunks p cs) = []"
  by (induction cs) simp_all

lemma write_chunks_only_writes:
  "e \<in> set (write_chunks p cs) \<Longrightarrow> \<exists>b. e = Write p b"
  by (induction cs) (auto split: if_splits)

lemma written_write_chunks: "concat (map written (write_chunks p cs)) = concat cs"
  by (induction cs) simp_all

lemma try_once_completes:
  "raise_for_status r = None \<Longrightarrow> stream_error r = None \<Longrightarrow>
     try_once (Got r) u hdrs downloaded temp local
       = ([Get u hdrs, Open temp ''ab'',
           Progress (case content_length r of Some n \<Rightarrow> Some (n + downloaded) | None \<Rightarrow> None)
                    downloaded]
            @ write_chunks temp (chunks r) @ [Rename temp local],
          Inr local)"
  by (simp add: try_once_def Let_def)

lemma ensure_unique_filename_free:
  "\<not> path_exists fs (ensure_unique_filename fs directory filename extension)"
  unfolding ensure_unique_filename_def by (rule unique_loop_free)

lemma inert_apply: "list_all inert evs \<Longrightarrow> apply_events evs fs = fs"
proof (induction evs)
  case Nil
  then show ?case by simp
next
  case (Cons e evs)
  then show ?case by (cases e) simp_all
qed

lemma keeps_exists:
  "list_all keeps evs \<Longrightarrow> path_exists fs p \<Longrightarrow> path_exists (apply_events evs fs) p"
proof (induction evs arbitrary: fs)
  case Nil
  then show ?case by simp
next
  case (Cons e evs)
  from Cons.prems have "path_exists (apply_event e fs) p"
    by (cases e) (auto simp: path_exists_def split: option.splits)
  with Cons show ?case by simp
qed

lemma cleanup_all:
  "distinct ps \<Longrightarrow> \<forall>p\<in>set ps. path_exists fs p \<Longrightarrow> cleanup fs ps = (map Remove ps, None)"
proof (induction ps arbitrary: fs)
  case Nil
  then show ?case by simp
next
  case (Cons p ps)
  have "\<forall>q\<in>set ps. path_exists (fmdrop p fs) q"
    using Cons.prems by (auto simp: path_exists_def)
  with Cons show ?case by simp
qed

lemma removed_gone:
  "p \<in> set ps \<Longrightarrow> \<not> path_exists (apply_events (map Remove ps) fs) p"
proof (induction ps arbitrary: fs)
  case Nil
  then show ?case by simp
next
  case (Cons q ps)
  have gone: "\<not> path_exists fs' p \<Longrightarrow> \<not> path_exists (apply_events (map Remove ps) fs') p" for fs'
    by (induction ps arbitrary: fs') (simp_all add: path_exists_def)
  show ?case
  proof (cases "p = q")
    case True
    have "\<not> path_exists (fmdrop q fs) p" using True by (simp add: path_exists_def)
    from gone[OF this] show ?thesis by simp
  next
    case False
    with Cons show ?thesis by simp
  qed
qed

lemma collect_all_done:
  "\<forall>c\<in>set completions. \<exists>p. snd c = Inr p \<Longrightarrow>
     collect completions acc = Inr (acc @ map (\<lambda>c. projr (snd c)) completions)"
proof (induction completions arbitrary: acc)
  case Nil
  then show ?case by simp
next
  case (Cons c cs)
  obtain i r where c: "c = (i, r)" by (cases c)
  with Cons.prems obtain p where "r = Inr p" by auto
  with c Cons show ?case by simp
qed

lemma collect_first_failure:
  "\<forall>c\<in>set before. \<exists>p. snd c = Inr p \<Longrightarrow>
     collect (before @ (idx, Inl e) # rest) acc = Inl (idx, e)"
proof (induction before arbitrary: acc)
  case Nil
  then show ?case by simp
next
  case (Cons c cs)
  obtain i r where c: "c = (i, r)" by (cases c)
  with Cons.prems obtain p where "r = Inr p" by auto
  with c Cons show ?case by simp
qed

lemma last_path_join: "b \<noteq> [] \<Longrightarrow> last (path_join a b) = last b"
  by (simp add: path_join_def)

lemma local_filename_inj: "local_filename d i = local_filename d j \<Longrightarrow> i = j"
proof -
  assume "local_filename d i = local_filename d j"
  then have "path_join d (''segment'' @ CHR ''_'' # (str_nat i @ ''.ts''))
               = path_join d (''segment'' @ CHR ''_'' # (str_nat j @ ''.ts''))"
    by (simp add: local_filename_def)
  from path_join_suffix_inj[OF this] show "i = j" by (simp add: str_nat_inj)
qed

lemma local_not_concat: "local_filename d i \<noteq> path_join d (filename @ ''_concat.txt'')"
proof
  assume "local_filename d i = path_join d (filename @ ''_concat.txt'')"
  then have "last (path_join d (''segment_'' @ str_nat i @ ''.ts''))
               = last (path_join d (filename @ ''_concat.txt''))"
    by (simp add: local_filename_def)
  then show False by (simp add: last_path_join)
qed

lemma progress_write_chunks: "filter is_progress (write_chunks p cs) = []"
  by (induction cs) simp_all

lemma try_once_failing:
  "attempt_fails answer \<Longrightarrow>
     \<exists>evs e. try_once answer u hdrs downloaded temp local = (evs, Inl e)
            \<and> list_all (quiet temp) evs
            \<and> filter timing evs = [Get u hdrs]
            \<and> filter is_progress evs = bar_of downloaded answer
            \<and> concat (map written evs) = received answer"
  by (auto simp: attempt_fails_def try_once_def Let_def timing_write_chunks
                 progress_write_chunks written_write_chunks quiet_write_chunks
                 received_def bar_of_def
           split: attempt.splits option.splits)

lemma try_once_succeeding:
  "\<not> attempt_fails answer \<Longrightarrow>
     \<exists>pre. try_once answer u hdrs downloaded temp local = (pre @ [Rename temp local], Inr local)
          \<and> list_all (quiet temp) pre
          \<and> Open temp ''ab'' \<in> set pre
          \<and> filter timing pre = [Get u hdrs]
          \<and> filter is_progress pre = bar_of downloaded answer
          \<and> concat (map written pre) = received answer"
proof -
  assume "\<not> attempt_fails answer"
  then obtain r where r: "answer = Got r" "raise_for_status r = None" "stream_error r = None"
    by (auto simp: attempt_fails_def split: attempt.splits)
  let ?pre = "[Get u hdrs, Open temp ''ab'',
               Progress (case content_length r of Some n \<Rightarrow> Some (n + downloaded) | None \<Rightarrow> None)
                        downloaded] @ write_chunks temp (chunks r)"
  have "try_once answer u hdrs downloaded temp local = (?pre @ [Rename temp local], Inr local)"
    using r by (simp add: try_once_def Let_def)
  moreover have "list_all (quiet temp) ?pre" by (simp add: quiet_write_chunks)
  moreover have "Open temp ''ab'' \<in> set ?pre" by simp
  moreover have "filter timing ?pre = [Get u hdrs]" by (simp add: timing_write_chunks)
  moreover have "filter is_progress ?pre = bar_of downloaded answer"
    using r by (simp add: progress_write_chunks bar_of_def)
  moreover have "concat (map written ?pre) = received answer"
    using r by (simp add: written_write_chunks received_def)
  ultimately show ?thesis by blast
qed

lemma attempts_loop_success_iff:
  "(\<exists>p. snd (attempts_loop net u hdrs downloaded temp local idx retries as) = Inr p)
     \<longleftrightarrow> (\<exists>a\<in>set as. \<not> attempt_fails (net a))"
proof (induction as)
  case Nil
  then show ?case by simp
next
  case (Cons a as)
  show ?case
  proof (cases "attempt_fails (net a)")
    case True
    from try_once_failing[OF True, of u hdrs downloaded temp local]
    obtain evs e where "try_once (net a) u hdrs downloaded temp local = (evs, Inl e)" by blast
    with Cons True show ?thesis by (simp add: case_prod_unfold Let_def)
  next
    case False
    from try_once_succeeding[OF False, of u hdrs downloaded temp local]
    obtain pre where "try_once (net a) u hdrs downloaded temp local
                        = (pre @ [Rename temp local], Inr local)" by blast
    with False show ?thesis by auto
  qed
qed

lemma attempts_loop_failing_prefix:
  "\<forall>a\<in>set xs. attempt_fails (net a) \<Longrightarrow>
     \<exists>F. attempts_loop net u hdrs downloaded temp local idx retries (xs @ ys)
            = (F @ fst (attempts_loop net u hdrs downloaded temp local idx retries ys),
               snd (attempts_loop net u hdrs downloaded temp local idx retries ys))
        \<and> list_all (quiet temp) F
        \<and> filter timing F = concat (map (\<lambda>a. [Get u hdrs, Sleep (RETRY_BACKOFF ^ a)]) xs)
        \<and> filter is_progress F = concat (map (\<lambda>a. bar_of downloaded (net a)) xs)
        \<and> concat (map written F) = concat (map (\<lambda>a. received (net a)) xs)"
proof (induction xs)
  case Nil
  show ?case by (intro exI[of _ "[]"]) simp
next
  case (Cons a xs)
  from Cons.prems have fa: "attempt_fails (net a)" and rest: "\<forall>a\<in>set xs. attempt_fails (net a)"
    by simp_all
  from try_once_failing[OF fa, of u hdrs downloaded temp local]
  obtain evs e where t: "try_once (net a) u hdrs downloaded temp local = (evs, Inl e)"
    "list_all (quiet temp) evs" "filter timing evs = [Get u hdrs]"
    "filter is_progress evs = bar_of downloaded (net a)"
    "concat (map written evs) = received (net a)" by blast
  from Cons.IH[OF rest] obtain F where F:
    "attempts_loop net u hdrs downloaded temp local idx retries (xs @ ys)
            = (F @ fst (attempts_loop net u hdrs downloaded temp local idx retries ys),
               snd (attempts_loop net u hdrs downloaded temp local idx retries ys))"
    "list_all (quiet temp) F"
    "filter timing F = concat (map (\<lambda>a. [Get u hdrs, Sleep (RETRY_BACKOFF ^ a)]) xs)"
    "filter is_progress F = concat (map (\<lambda>a. bar_of downloaded (net a)) xs)"
    "concat (map written F) = concat (map (\<lambda>a. received (net a)) xs)" by blast
  let ?msg = "Print (''[!] Segment '' @ str_nat idx @ '' download attempt ''
                             @ str_nat a @ '' failed: '' @ message e)"
  let ?F = "evs @ [?msg, Sleep (RETRY_BACKOFF ^ a)] @ F"
  have "attempts_loop net u hdrs downloaded temp local idx retries ((a # xs) @ ys)
            = (?F @ fst (attempts_loop net u hdrs downloaded temp local idx retries ys),
               snd (attempts_loop net u hdrs downloaded temp local idx retries ys))"
    using t(1) F(1) by simp
  moreover have "list_all (quiet temp) ?F" using t(2) F(2) by simp
  moreover have "filter timing ?F
                   = concat (map (\<lambda>a. [Get u hdrs, Sleep (RETRY_BACKOFF ^ a)]) (a # xs))"
    using t(3) F(3) by simp
  moreover have "filter is_progress ?F = concat (map (\<lambda>a. bar_of downloaded (net a)) (a # xs))"
    using t(4) F(4) by simp
  moreover have "concat (map written ?F) = concat (map (\<lambda>a. received (net a)) (a # xs))"
    using t(5) F(5) by simp
  ultimately show ?case by blast
qed

lemma attempts_loop_run:
  assumes k: "k \<le> retries"
    and fails: "\<forall>a. 1 \<le> a \<and> a \<le> k \<longrightarrow> attempt_fails (net a)"
    and ok: "k < retries \<longrightarrow> \<not> attempt_fails (net (k + 1))"
  shows "\<exists>body.
      attempts_loop net u hdrs downloaded temp local idx retries [1..<retries + 1]
        = (if k < retries then (body @ [Rename temp local], Inr local)
           else (body, Inl (RuntimeError (''Failed to download segment '' @ str_nat idx
                                          @ '' after '' @ str_nat retries @ '' retries.''))))
      \<and> list_all (quiet temp) body
      \<and> (k < retries \<longrightarrow> Open temp ''ab'' \<in> set body)
      \<and> filter timing body
          = concat (map (\<lambda>a. [Get u hdrs, Sleep (RETRY_BACKOFF ^ a)]) [1..<k + 1])
            @ (if k < retries then [Get u hdrs] else [])
      \<and> filter is_progress body
          = concat (map (\<lambda>a. bar_of downloaded (net a)) (attempts_made k retries))
      \<and> concat (map written body)
          = concat (map (\<lambda>a. received (net a)) (attempts_made k retries))"
proof -
  have all: "\<forall>a\<in>set [1..<k + 1]. attempt_fails (net a)"
    using fails by (auto simp del: upt_Suc)
  show ?thesis
  proof (cases "k < retries")
    case False
    with k have kr: "k = retries" by simp
    from attempts_loop_failing_prefix[OF all, of u hdrs downloaded temp local idx retries "[]"]
    obtain F where F:
      "attempts_loop net u hdrs downloaded temp local idx retries ([1..<k + 1] @ [])
         = (F @ fst (attempts_loop net u hdrs downloaded temp local idx retries []),
            snd (attempts_loop net u hdrs downloaded temp local idx retries []))"
      "list_all (quiet temp) F"
      "filter timing F = concat (map (\<lambda>a. [Get u hdrs, Sleep (RETRY_BACKOFF ^ a)]) [1..<k + 1])"
      "filter is_progress F = concat (map (\<lambda>a. bar_of downloaded (net a)) [1..<k + 1])"
      "concat (map written F) = concat (map (\<lambda>a. received (net a)) [1..<k + 1])" by blast
    have "attempts_loop net u hdrs downloaded temp local idx retries [1..<retries + 1]
            = (F, Inl (RuntimeError (''Failed to download segment '' @ str_nat idx
                                          @ '' after '' @ str_nat retries @ '' retries.'')))"
      using F(1) kr by (simp del: upt_Suc)
    with F(2-5) False kr show ?thesis
      by (intro exI[of _ F]) (simp add: attempts_made_def del: upt_Suc)
  next
    case True
    with ok have good: "\<not> attempt_fails (net (k + 1))" by simp
    have split: "[1..<retries + 1] = [1..<k + 1] @ ((k + 1) # [k + 2..<retries + 1])"
    proof -
      have "[1..<retries + 1] = [1..<k + 1] @ [k + 1..<retries + 1]"
        using True upt_add_eq_append[of 1 "k + 1" "retries - k"] by simp
      moreover have "[k + 1..<retries + 1] = (k + 1) # [k + 2..<retries + 1]"
        using True by (simp add: upt_conv_Cons del: upt_Suc)
      ultimately show ?thesis by simp
    qed
    from try_once_succeeding[OF good, of u hdrs downloaded temp local]
    obtain pre where pre:
      "try_once (net (k + 1)) u hdrs downloaded temp local = (pre @ [Rename temp local], Inr local)"
      "list_all (quiet temp) pre" "Open temp ''ab'' \<in> set pre"
      "filter timing pre = [Get u hdrs]"
      "filter is_progress pre = bar_of downloaded (net (k + 1))"
      "concat (map written pre) = received (net (k + 1))" by blast
    have tail: "attempts_loop net u hdrs downloaded temp local idx retries
                  ((k + 1) # [k + 2..<retries + 1]) = (pre @ [Rename temp local], Inr local)"
      using pre(1) by simp
    from attempts_loop_failing_prefix[OF all, of u hdrs downloaded temp local idx retries
           "(k + 1) # [k + 2..<retries + 1]"]
    obtain F where F:
      "attempts_loop net u hdrs downloaded temp local idx retries
           ([1..<k + 1] @ ((k + 1) # [k + 2..<retries + 1]))
         = (F @ fst (attempts_loop net u hdrs downloaded temp local idx retries
                       ((k + 1) # [k + 2..<retries + 1])),
            snd (attempts_loop net u hdrs downloaded temp local idx retries
                       ((k + 1) # [k + 2..<retries + 1])))"
      "list_all (quiet temp) F"
      "filter timing F = concat (map (\<lambda>a. [Get u hdrs, Sleep (RETRY_BACKOFF ^ a)]) [1..<k + 1])"
      "filter is_progress F = concat (map (\<lambda>a. bar_of downloaded (net a)) [1..<k + 1])"
      "concat (map written F) = concat (map (\<lambda>a. received (net a)) [1..<k + 1])" by blast
    have made: "attempts_made k retries = [1..<k + 1] @ [k + 1]"
      using True by (simp add: attempts_made_def)
    have run: "attempts_loop net u hdrs downloaded temp local idx retries [1..<retries + 1]
            = ((F @ pre) @ [Rename temp local], Inr local)"
      unfolding split F(1) tail by simp
    show ?thesis
      using run F(2-5) pre(2-6) True unfolding made
      by (intro exI[of _ "F @ pre"]) simp
  qed
qed

lemma download_segment_run:
  assumes k: "k \<le> retries"
    and fails: "\<forall>a. 1 \<le> a \<and> a \<le> k \<longrightarrow> attempt_fails (net a)"
    and ok: "k < retries \<longrightarrow> \<not> attempt_fails (net (k + 1))"
    and d: "downloaded = (if path_exists fs (temp_filename directory idx)
                          then getsize fs (temp_filename directory idx) else 0)"
    and h: "hdrs = HEADERS @ (if downloaded > 0
                              then [(''Range'', ''bytes='' @ str_nat downloaded @ ''-'')]
                              else [])"
  shows "\<exists>body.
      download_segment fs net u directory idx total_n retries
        = (if k < retries
           then (body @ [Rename (temp_filename directory idx) (local_filename directory idx)],
                 Inr (local_filename directory idx))
           else (body, Inl (RuntimeError (''Failed to download segment '' @ str_nat idx
                                          @ '' after '' @ str_nat retries @ '' retries.''))))
      \<and> list_all (quiet (temp_filename directory idx)) body
      \<and> (k < retries \<longrightarrow> Open (temp_filename directory idx) ''ab'' \<in> set body)
      \<and> filter timing body
          = concat (map (\<lambda>a. [Get u hdrs, Sleep (RETRY_BACKOFF ^ a)]) [1..<k + 1])
            @ (if k < retries then [Get u hdrs] else [])
      \<and> filter is_progress body
          = concat (map (\<lambda>a. bar_of downloaded (net a)) (attempts_made k retries))
      \<and> concat (map written body)
          = concat (map (\<lambda>a. received (net a)) (attempts_made k retries))"
proof -
  have "download_segment fs net u directory idx total_n retries
          = attempts_loop net u hdrs downloaded (temp_filename directory idx)
              (local_filename directory idx) idx retries [1..<retries + 1]"
    unfolding download_segment_def Let_def d h by simp
  with attempts_loop_run[OF k fails ok, of u hdrs downloaded "temp_filename directory idx"
         "local_filename directory idx" idx]
  show ?thesis by simp
qed

lemma quiet_between:
  assumes q: "list_all (quiet temp) (take m evs)" and nm: "n \<le> m"
    and c: "fmlookup (apply_events (take n evs) fs) temp = Some c"
  shows "\<exists>s. fmlookup (apply_events (take m evs) fs) temp = Some (c @ s)"
proof -
  have tk: "take m evs = take n evs @ drop n (take m evs)"
    using nm by (metis append_take_drop_id min.absorb1 take_take)
  have "list_all (quiet temp) (drop n (take m evs))"
    using q by (simp add: list_all_iff) (meson in_set_dropD)
  from quiet_grows[OF this c]
  have "fmlookup (apply_events (drop n (take m evs)) (apply_events (take n evs) fs)) temp
          = Some (c @ concat (map written (drop n (take m evs))))" .
  then have "fmlookup (apply_events (take n evs @ drop n (take m evs)) fs) temp
          = Some (c @ concat (map written (drop n (take m evs))))"
    by (simp only: apply_events_append)
  with tk show ?thesis by auto
qed

section \<open>The claims\<close>

text \<open>
  Claim C1 (manifest order). The claim is that the paths written to the concat manifest are
  in the order of the segment indices. \<open>download_and_merge_segments\<close> sorts the collected
  paths as strings, so \<open>segment_10.ts\<close> comes before \<open>segment_2.ts\<close>. For a playlist of ten
  segments, all downloaded, the manifest lines are those of the segments
  1, 10, 2, 3, ..., 9, whereas the index order is 1, 2, ..., 10 (second conjunct).
\<close>

theorem merge_order_ten_segments:
  "removeAll [] (map written
     (fst (download_and_merge_segments ten_files id ten_segments ''/d'' ''movie'' 4 ten_done 0 None)))
     = map (manifest_line id)
         [''/d/segment_1.ts'', ''/d/segment_10.ts'', ''/d/segment_2.ts'', ''/d/segment_3.ts'',
          ''/d/segment_4.ts'', ''/d/segment_5.ts'', ''/d/segment_6.ts'', ''/d/segment_7.ts'',
          ''/d/segment_8.ts'', ''/d/segment_9.ts'']
   \<and> map (local_filename ''/d'') [1..<11]
     = [''/d/segment_1.ts'', ''/d/segment_2.ts'', ''/d/segment_3.ts'', ''/d/segment_4.ts'',
          ''/d/segment_5.ts'', ''/d/segment_6.ts'', ''/d/segment_7.ts'', ''/d/segment_8.ts'',
          ''/d/segment_9.ts'', ''/d/segment_10.ts'']"
  by code_simp

text \<open>
  Claim C2 (cleanup after the muxer), as amended. When every job has returned its segment
  file, the files exist and the worker count is positive, the run of
  \<open>download_and_merge_segments\<close> is exactly: the events \<open>before_mux\<close> (none of them a
  removal), then the muxer subprocess, then the line that reports the output, then the
  removal of every segment file and of the concat file, and the function returns normally.
  All segment files exist when the muxer is started, and none of them nor the concat file
  exists at the end. This holds whatever the exit code \<open>mux_code\<close> of the muxer is: the code
  never reads it.
\<close>

theorem merge_cleanup_whatever_exit_code:
  "0 < parallel \<and> distinct (map fst completions)
     \<and> (\<forall>c\<in>set completions. snd c = Inr (local_filename directory (fst c))
                              \<and> path_exists fs (local_filename directory (fst c))) \<Longrightarrow>
   (let concat_file = path_join directory (filename @ ''_concat.txt'');
        segment_files = map (\<lambda>c. local_filename directory (fst c)) completions;
        before_mux =
          [Makedirs directory,
           Print (''[+] Starting parallel download of '' @ str_nat (length segments)
                  @ '' segments with '' @ str_int parallel @ '' workers''),
           Pool parallel]
          @ map (\<lambda>(i, seg). Submit seg directory (i + 1) (length segments)) (enumerate 0 segments)
          @ [Pool_shutdown False, Open concat_file ''w'']
          @ map (\<lambda>seg_file. Write concat_file (manifest_line abspath seg_file))
                (sort segment_files)
          @ [Print ''[+] Merging segments into MP4...''];
        mp4_file = ensure_unique_filename (apply_events before_mux fs) directory filename ''.mp4'';
        run = download_and_merge_segments fs abspath segments directory filename parallel
                completions mux_code mux_out
    in run = (before_mux
              @ [Run [''ffmpeg'', ''-y'', ''-f'', ''concat'', ''-safe'', ''0'', ''-i'',
                      concat_file, ''-c'', ''copy'', mp4_file] mux_code mux_out,
                 Print (''['' @ check_mark @ ''] Saved merged video as: '' @ mp4_file)]
              @ map Remove (segment_files @ [concat_file]),
              Returned)
       \<and> (\<forall>p\<in>set segment_files. path_exists (apply_events before_mux fs) p)
       \<and> (\<forall>p\<in>set (segment_files @ [concat_file]).
             \<not> path_exists (apply_events (fst run) fs) p))"
proof -
  assume a: "0 < parallel \<and> distinct (map fst completions)
     \<and> (\<forall>c\<in>set completions. snd c = Inr (local_filename directory (fst c))
                              \<and> path_exists fs (local_filename directory (fst c)))"
  define sf where "sf = map (\<lambda>c. local_filename directory (fst c)) completions"
  define concat_file where "concat_file = path_join directory (filename @ ''_concat.txt'')"
  define start where "start = [Makedirs directory,
                   Print (''[+] Starting parallel download of '' @ str_nat (length segments)
                          @ '' segments with '' @ str_int parallel @ '' workers''),
                   Pool parallel]"
  define submits where "submits = map (\<lambda>(i, seg). Submit seg directory (i + 1) (length segments))
                              (enumerate 0 segments)"
  define writes where "writes = [Pool_shutdown False, Open concat_file ''w'']
                                 @ map (\<lambda>seg_file. Write concat_file (manifest_line abspath seg_file))
                                       (sort sf)"
  define fs1 where "fs1 = apply_events writes fs"
  define mp4_file where "mp4_file = ensure_unique_filename fs1 directory filename ''.mp4''"
  define merge where "merge = [Print ''[+] Merging segments into MP4...'',
                                 Run [''ffmpeg'', ''-y'', ''-f'', ''concat'', ''-safe'', ''0'', ''-i'',
                               concat_file, ''-c'', ''copy'', mp4_file] mux_code mux_out,
                                 Print (''['' @ check_mark @ ''] Saved merged video as: '' @ mp4_file)]"
  define fs2 where "fs2 = apply_events merge fs1"
  have col: "collect completions [] = Inr sf"
  proof -
    have "\<forall>c\<in>set completions. \<exists>p. snd c = Inr p" using a by blast
    from collect_all_done[OF this, of "[]"]
    have "collect completions [] = Inr (map (\<lambda>c. projr (snd c)) completions)" by simp
    moreover have "map (\<lambda>c. projr (snd c)) completions = sf"
      unfolding sf_def using a by (intro map_cong) auto
    ultimately show ?thesis by simp
  qed
  have dist: "distinct (sf @ [concat_file])"
  proof -
    have "inj_on (local_filename directory) (set (map fst completions))"
      by (rule inj_onI) (rule local_filename_inj)
    moreover from a have "distinct (map fst completions)" by simp
    ultimately have "distinct (map (local_filename directory) (map fst completions))"
      by (simp only: distinct_map)
    then have "distinct sf" by (simp add: sf_def comp_def)
    moreover have "concat_file \<notin> set sf"
    proof
      assume "concat_file \<in> set sf"
      then obtain c where "local_filename directory (fst c) = concat_file"
        by (auto simp: sf_def)
      with local_not_concat[of directory "fst c" filename] show False
        by (simp add: concat_file_def)
    qed
    ultimately show ?thesis by simp
  qed
  have kw: "list_all keeps writes" by (auto simp: writes_def list_all_iff)
  have km: "list_all keeps merge" by (simp add: merge_def)
  have cf1: "path_exists fs1 concat_file"
  proof -
    have "path_exists (apply_events [Pool_shutdown False, Open concat_file ''w''] fs) concat_file"
      by (simp add: path_exists_def)
    moreover have "list_all keeps (map (\<lambda>seg_file. Write concat_file (manifest_line abspath seg_file))
                                       (sort sf))"
      by (auto simp: list_all_iff)
    ultimately show ?thesis
      unfolding fs1_def writes_def apply_events_append by (rule keeps_exists[rotated])
  qed
  have ex2: "\<forall>p\<in>set (sf @ [concat_file]). path_exists fs2 p"
  proof
    fix p assume "p \<in> set (sf @ [concat_file])"
    then have "path_exists fs1 p"
    proof (cases "p = concat_file")
      case True
      with cf1 show ?thesis by simp
    next
      case False
      with \<open>p \<in> set (sf @ [concat_file])\<close> have "p \<in> set sf" by simp
      with a have "path_exists fs p" by (auto simp: sf_def)
      from keeps_exists[OF kw this] show ?thesis by (simp add: fs1_def)
    qed
    from keeps_exists[OF km this] show "path_exists fs2 p" by (simp add: fs2_def)
  qed
  have cl: "cleanup fs2 (sf @ [concat_file]) = (map Remove (sf @ [concat_file]), None)"
    using cleanup_all[OF dist ex2] .
  have par: "\<not> parallel \<le> 0" using a by simp
  have run: "download_and_merge_segments fs abspath segments directory filename parallel
                completions mux_code mux_out
               = (start @ submits @ writes @ merge @ map Remove (sf @ [concat_file]), Returned)"
    unfolding download_and_merge_segments_def Let_def
    using par col cl
    unfolding start_def submits_def writes_def merge_def fs1_def fs2_def mp4_file_def concat_file_def
    by simp
  define before_mux where "before_mux = start @ submits
          @ [Pool_shutdown False, Open concat_file ''w'']
          @ map (\<lambda>seg_file. Write concat_file (manifest_line abspath seg_file)) (sort sf)
          @ [Print ''[+] Merging segments into MP4...'']"
  have before_mux_eq: "before_mux = start @ submits @ writes
                                      @ [Print ''[+] Merging segments into MP4...'']"
    by (simp add: before_mux_def writes_def)
  define mp4' where "mp4' = ensure_unique_filename (apply_events before_mux fs) directory filename ''.mp4''"
  define the_run where "the_run = download_and_merge_segments fs abspath segments directory
                                    filename parallel completions mux_code mux_out"
  have inert0: "list_all inert (start @ submits)"
    by (auto simp: start_def submits_def list_all_iff)
  have bm: "apply_events before_mux fs = fs1"
  proof -
    have "apply_events ((start @ submits) @ writes @ [Print ''[+] Merging segments into MP4...'']) fs
            = fs1"
      using inert_apply[OF inert0, of fs] by (simp add: apply_events_append fs1_def)
    then show ?thesis by (simp add: before_mux_eq)
  qed
  have mp4: "mp4' = mp4_file" by (simp add: mp4'_def mp4_file_def bm)
  have run2: "the_run = (before_mux
              @ [Run [''ffmpeg'', ''-y'', ''-f'', ''concat'', ''-safe'', ''0'', ''-i'',
                      concat_file, ''-c'', ''copy'', mp4'] mux_code mux_out,
                 Print (''['' @ check_mark @ ''] Saved merged video as: '' @ mp4')]
              @ map Remove (sf @ [concat_file]),
              Returned)"
    unfolding the_run_def run mp4 by (simp add: before_mux_eq merge_def)
  have present: "\<forall>p\<in>set sf. path_exists (apply_events before_mux fs) p"
  proof
    fix p assume "p \<in> set sf"
    with a have "path_exists fs p" by (auto simp: sf_def)
    from keeps_exists[OF kw this] show "path_exists (apply_events before_mux fs) p"
      by (simp add: bm fs1_def)
  qed
  have after: "apply_events (fst the_run) fs = apply_events (map Remove (sf @ [concat_file])) fs2"
  proof -
    have "fst the_run = before_mux @ (tl merge @ map Remove (sf @ [concat_file]))"
      unfolding run2 by (simp add: merge_def mp4)
    moreover have "apply_events (tl merge) fs1 = fs2"
      by (simp add: fs2_def merge_def)
    ultimately show ?thesis by (simp add: apply_events_append bm)
  qed
  have gone: "\<forall>p\<in>set (sf @ [concat_file]). \<not> path_exists (apply_events (fst the_run) fs) p"
  proof
    fix p assume "p \<in> set (sf @ [concat_file])"
    from removed_gone[OF this, of fs2] show "\<not> path_exists (apply_events (fst the_run) fs) p"
      unfolding after .
  qed
  from run2 present gone
  have "the_run = (before_mux
              @ [Run [''ffmpeg'', ''-y'', ''-f'', ''concat'', ''-safe'', ''0'', ''-i'',
                      concat_file, ''-c'', ''copy'', mp4'] mux_code mux_out,
                 Print (''['' @ check_mark @ ''] Saved merged video as: '' @ mp4')]
              @ map Remove (sf @ [concat_file]),
              Returned)
       \<and> (\<forall>p\<in>set sf. path_exists (apply_events before_mux fs) p)
       \<and> (\<forall>p\<in>set (sf @ [concat_file]).
             \<not> path_exists (apply_events (fst the_run) fs) p)"
    by blast
  then show ?thesis
    unfolding Let_def the_run_def mp4'_def before_mux_def start_def submits_def
              sf_def concat_file_def .
qed

text \<open>
  The hypotheses of C2 hold for two downloaded segments that finish in the order 2, 1.
\<close>

theorem merge_cleanup_whatever_exit_code_witness:
  "path_exists two_files (local_filename ''/d'' 1)
   \<and> snd (download_and_merge_segments two_files id [''u1'', ''u2''] ''/d'' ''movie'' 4 two_done 2 None)
       = Returned
   \<and> \<not> path_exists
         (apply_events
            (fst (download_and_merge_segments two_files id [''u1'', ''u2''] ''/d'' ''movie'' 4 two_done 2 None))
            two_files)
         (local_filename ''/d'' 1)"
proof -
  have h: "(0::int) < 4 \<and> distinct (map fst two_done)
     \<and> (\<forall>c\<in>set two_done. snd c = Inr (local_filename ''/d'' (fst c))
                          \<and> path_exists two_files (local_filename ''/d'' (fst c)))"
    by code_simp
  have e: "path_exists two_files (local_filename ''/d'' 1)" by code_simp
  have m: "local_filename ''/d'' 1
             \<in> set (map (\<lambda>c. local_filename ''/d'' (fst c)) two_done
                      @ [path_join ''/d'' (''movie'' @ ''_concat.txt'')])"
    by (simp add: two_done_def)
  note t = merge_cleanup_whatever_exit_code[where abspath = id and segments = "[''u1'', ''u2'']"
             and filename = "''movie''" and mux_code = 2 and mux_out = None, OF h,
             unfolded Let_def]
  from t have r: "snd (download_and_merge_segments two_files id [''u1'', ''u2''] ''/d'' ''movie'' 4 two_done 2 None)
                    = Returned"
    by (metis snd_conv)
  from t have "\<forall>p\<in>set (map (\<lambda>c. local_filename ''/d'' (fst c)) two_done
                       @ [path_join ''/d'' (''movie'' @ ''_concat.txt'')]).
                 \<not> path_exists
                     (apply_events
                        (fst (download_and_merge_segments two_files id [''u1'', ''u2''] ''/d'' ''movie'' 4 two_done 2 None))
                        two_files) p"
    by blast
  with m e r show ?thesis by blast
qed

text \<open>
  C2 as stated fails: with the muxer exit code 1 both segment files, present before the
  merge, are gone afterwards.
\<close>

theorem merge_cleanup_counterexample:
  "path_exists two_files ''/d/segment_1.ts''
   \<and> path_exists two_files ''/d/segment_2.ts''
   \<and> snd (download_and_merge_segments two_files id [''u1'', ''u2''] ''/d'' ''movie'' 4 two_done 1 None)
       = Returned
   \<and> \<not> path_exists
         (apply_events
            (fst (download_and_merge_segments two_files id [''u1'', ''u2''] ''/d'' ''movie'' 4 two_done 1 None))
            two_files)
         ''/d/segment_1.ts''
   \<and> \<not> path_exists
         (apply_events
            (fst (download_and_merge_segments two_files id [''u1'', ''u2''] ''/d'' ''movie'' 4 two_done 1 None))
            two_files)
         ''/d/segment_2.ts''"
  by code_simp

text \<open>
  Claim C3 (server that does not honour the range), as amended. When a partial file with
  content \<open>c\<close> exists and the first answer is any response that \<open>raise_for_status\<close> accepts
  (status 200 with the whole body as much as status 206), \<open>download_segment\<close> sends the
  range request, opens the partial file for appending, appends every chunk and renames:
  the final file holds \<open>c\<close> followed by the whole response body. The status and the headers
  of the response are not inspected and nothing is truncated.
\<close>

theorem download_segment_appends_full_body:
  "fmlookup fs (temp_filename directory idx) = Some c \<and> c \<noteq> [] \<and> 1 \<le> retries
     \<and> net 1 = Got r \<and> raise_for_status r = None \<and> stream_error r = None \<Longrightarrow>
   (let temp = temp_filename directory idx;
        local = local_filename directory idx;
        run = download_segment fs net u directory idx total_n retries
    in run = ([Get u (HEADERS @ [(''Range'', ''bytes='' @ str_nat (length c) @ ''-'')]),
               Open temp ''ab'',
               Progress (case content_length r of
                           Some n \<Rightarrow> Some (n + length c)
                         | None \<Rightarrow> None) (length c)]
                @ write_chunks temp (chunks r) @ [Rename temp local],
              Inr local)
       \<and> fmlookup (apply_events (fst run) fs) local = Some (c @ concat (chunks r))
       \<and> fmlookup (apply_events (fst run) fs) temp = None)"
proof -
  assume a: "fmlookup fs (temp_filename directory idx) = Some c \<and> c \<noteq> [] \<and> 1 \<le> retries
     \<and> net 1 = Got r \<and> raise_for_status r = None \<and> stream_error r = None"
  define temp where "temp = temp_filename directory idx"
  define local where "local = local_filename directory idx"
  define hdrs where "hdrs = HEADERS @ [(''Range'', ''bytes='' @ str_nat (length c) @ ''-'')]"
  define body where "body = [Get u hdrs, Open temp ''ab'',
           Progress (case content_length r of Some n \<Rightarrow> Some (n + length c) | None \<Rightarrow> None)
                    (length c)] @ write_chunks temp (chunks r)"
  have c: "fmlookup fs temp = Some c" using a by (simp add: temp_def)
  have ne: "temp \<noteq> local" unfolding temp_def local_def by (rule temp_not_local)
  have up: "[1..<retries + 1] = 1 # [Suc 1..<retries + 1]"
    using a by (subst upt_rec) simp
  have t: "try_once (net 1) u hdrs (length c) temp local = (body @ [Rename temp local], Inr local)"
    using a try_once_completes[of r u hdrs "length c" temp local] by (simp add: body_def)
  have run_eq: "download_segment fs net u directory idx total_n retries
                  = attempts_loop net u hdrs (length c) temp local idx retries [1..<retries + 1]"
    using a unfolding download_segment_def Let_def hdrs_def temp_def local_def
    by (simp add: path_exists_def getsize_def)
  have "attempts_loop net u hdrs (length c) temp local idx retries (1 # [Suc 1..<retries + 1])
          = (body @ [Rename temp local], Inr local)"
    using t by simp
  then have run: "download_segment fs net u directory idx total_n retries
               = (body @ [Rename temp local], Inr local)"
    unfolding run_eq up .
  have q: "list_all (quiet temp) body"
    by (simp add: body_def quiet_write_chunks)
  have w: "concat (map written body) = concat (chunks r)"
    by (simp add: body_def written_write_chunks)
  have mid: "fmlookup (apply_events body fs) temp = Some (c @ concat (chunks r))"
    using quiet_grows[OF q c] w by simp
  have fin: "apply_events (body @ [Rename temp local]) fs
               = fmupd local (c @ concat (chunks r)) (fmdrop temp (apply_events body fs))"
    using mid by (simp add: apply_events_append)
  have l: "fmlookup (apply_events (body @ [Rename temp local]) fs) local = Some (c @ concat (chunks r))"
    by (simp add: fin)
  have g: "fmlookup (apply_events (body @ [Rename temp local]) fs) temp = None"
    using ne by (simp add: fin)
  from run l g show ?thesis
    unfolding Let_def temp_def[symmetric] local_def[symmetric] hdrs_def[symmetric]
    by (simp add: body_def hdrs_def)
qed

text \<open>
  The hypotheses of C3 hold for a two byte partial file and a server that answers 200.
\<close>

theorem download_segment_appends_full_body_witness:
  "fmlookup partial_fs (temp_filename ''/d'' 1) = Some ''ab''
   \<and> ignoring_server 1 = Got \<lparr>status = 200, content_length = Some 4, chunks = [''abcd''], stream_error = None\<rparr>
   \<and> fmlookup (apply_events (fst (download_segment partial_fs ignoring_server ''u'' ''/d'' 1 1 5)) partial_fs)
       (local_filename ''/d'' 1) = Some ''ababcd''"
proof -
  let ?r = "\<lparr>status = 200, content_length = Some 4, chunks = [''abcd''], stream_error = None\<rparr>"
  have h: "fmlookup partial_fs (temp_filename ''/d'' 1) = Some ''ab'' \<and> ''ab'' \<noteq> [] \<and> (1::nat) \<le> 5
     \<and> ignoring_server 1 = Got ?r \<and> raise_for_status ?r = None \<and> stream_error ?r = None"
    by code_simp
  from h download_segment_appends_full_body[where fs = partial_fs and directory = "''/d''"
         and idx = 1 and c = "''ab''" and retries = 5 and net = ignoring_server and r = ?r
         and u = "''u''" and total_n = 1]
  have "fmlookup (apply_events (fst (download_segment partial_fs ignoring_server ''u'' ''/d'' 1 1 5)) partial_fs)
       (local_filename ''/d'' 1) = Some (''ab'' @ concat (chunks ?r))"
    unfolding Let_def by blast
  with h show ?thesis by simp
qed

text \<open>
  C3 as stated fails: the partial file holds \<open>ab\<close>, the request asks for the bytes from
  offset 2, the server answers 200 with the full body \<open>abcd\<close>, and the finished segment
  holds \<open>ababcd\<close>, not \<open>abcd\<close>.
\<close>

theorem download_segment_restart_counterexample:
  "fmlookup partial_fs ''/d/segment_1.ts.part'' = Some ''ab''
   \<and> ignoring_server 1 = Got \<lparr>status = 200, content_length = Some 4, chunks = [''abcd''], stream_error = None\<rparr>
   \<and> download_segment partial_fs ignoring_server ''u'' ''/d'' 1 1 5
       = ([Get ''u'' [(''User-Agent'', ''Mozilla/5.0''), (''Range'', ''bytes=2-'')],
           Open ''/d/segment_1.ts.part'' ''ab'', Progress (Some 6) 2,
           Write ''/d/segment_1.ts.part'' ''abcd'',
           Rename ''/d/segment_1.ts.part'' ''/d/segment_1.ts''],
          Inr ''/d/segment_1.ts'')
   \<and> fmlookup (apply_events (fst (download_segment partial_fs ignoring_server ''u'' ''/d'' 1 1 5)) partial_fs)
       ''/d/segment_1.ts'' = Some ''ababcd''
   \<and> ''ababcd'' \<noteq> ''abcd''"
  by code_simp

text \<open>
  Claim C4 (temporary file, then rename). For every run of \<open>download_segment\<close>, with
  \<open>state n\<close> the file system after the first \<open>n\<close> events:
  the temporary path differs from the final path; no other path is ever changed; the final
  path is unchanged before the last event; the run returns the final path exactly when one
  of the attempts 1 to \<open>retries\<close> does not fail; a run that returns ends with the single
  rename of the temporary file to the final path, after which the final file exists with
  the content that the temporary file had just before and the temporary file is gone; a
  failed run leaves the final path unchanged; and from the first opening or write on, the
  temporary or the final file exists in every state.
\<close>

theorem download_segment_temp_then_rename:
  "let local = local_filename directory idx;
       temp = temp_filename directory idx;
       run = download_segment fs net u directory idx total_n retries;
       evs = fst run;
       state = (\<lambda>n. apply_events (take n evs) fs)
   in temp \<noteq> local
      \<and> (\<forall>n p. p \<noteq> temp \<and> p \<noteq> local \<longrightarrow> fmlookup (state n) p = fmlookup fs p)
      \<and> (\<forall>n. n < length evs \<longrightarrow> fmlookup (state n) local = fmlookup fs local)
      \<and> ((\<exists>a. 1 \<le> a \<and> a \<le> retries \<and> \<not> attempt_fails (net a)) \<longleftrightarrow> snd run = Inr local)
      \<and> (case snd run of
            Inr r \<Rightarrow> r = local \<and> evs \<noteq> [] \<and> last evs = Rename temp local
                     \<and> path_exists (state (length evs)) local
                     \<and> \<not> path_exists (state (length evs)) temp
                     \<and> fmlookup (state (length evs)) local
                         = fmlookup (state (length evs - 1)) temp
          | Inl e \<Rightarrow> fmlookup (state (length evs)) local = fmlookup fs local)
      \<and> (\<forall>n. (\<exists>p x. Open p x \<in> set (take n evs) \<or> Write p x \<in> set (take n evs)) \<longrightarrow>
               path_exists (state n) temp \<or> path_exists (state n) local)"
proof -
  define local where "local = local_filename directory idx"
  define temp where "temp = temp_filename directory idx"
  define run where "run = download_segment fs net u directory idx total_n retries"
  define evs where "evs = fst run"
  define state where "state = (\<lambda>n. apply_events (take n evs) fs)"
  have ne: "temp \<noteq> local" unfolding temp_def local_def by (rule temp_not_local)
  have sh: "shape temp local run"
    unfolding temp_def local_def run_def by (rule download_segment_shape)
  have failed: "list_all (quiet temp) evs" if "snd run = Inl e" for e
    using sh that by (simp add: shape_def evs_def)
  have success: "\<exists>pre. evs = pre @ [Rename temp local] \<and> list_all (quiet temp) pre
                \<and> Open temp ''ab'' \<in> set pre" "r = local" if "snd run = Inr r" for r
    using sh that by (simp_all add: shape_def evs_def)
  have early: "list_all (quiet temp) (take n evs)" if "n < length evs" for n
  proof (cases "snd run")
    case (Inl e)
    from failed[OF this] show ?thesis
      by (simp add: list_all_iff) (meson in_set_takeD)
  next
    case (Inr r)
    from success(1)[OF this] obtain pre where pre: "evs = pre @ [Rename temp local]"
      "list_all (quiet temp) pre" by blast
    with that have "take n evs = take n pre" by simp
    with pre(2) show ?thesis
      by (simp add: list_all_iff) (meson in_set_takeD)
  qed
  have final: "path_exists (state n) local \<and> \<not> path_exists (state n) temp
                 \<and> fmlookup (state n) local = fmlookup (state (length evs - 1)) temp
                 \<and> (\<forall>p. p \<noteq> temp \<and> p \<noteq> local \<longrightarrow>
                 fmlookup (state n) p = fmlookup fs p)"
    if r: "snd run = Inr r" and n: "length evs \<le> n" for r n
  proof -
    from success(1)[OF r] obtain pre where pre: "evs = pre @ [Rename temp local]"
      "list_all (quiet temp) pre" "Open temp ''ab'' \<in> set pre" by blast
    have "path_exists (apply_events pre fs) temp"
      using quiet_opened[OF pre(2), of fs] pre(3) by blast
    then obtain c where c: "fmlookup (apply_events pre fs) temp = Some c"
      by (auto simp: path_exists_def)
    have st: "state n = fmupd local c (fmdrop temp (apply_events pre fs))"
      using n pre(1) c by (simp add: state_def apply_events_append)
    have prev: "state (length evs - 1) = apply_events pre fs"
      using pre(1) by (simp add: state_def)
    show ?thesis
      using st c ne prev quiet_other[OF pre(2), of _ fs] by (simp add: path_exists_def)
  qed
  have iff: "(\<exists>a. 1 \<le> a \<and> a \<le> retries \<and> \<not> attempt_fails (net a)) \<longleftrightarrow> snd run = Inr local"
  proof -
    have "(\<exists>p. snd run = Inr p) \<longleftrightarrow> (\<exists>a\<in>set [1..<retries + 1]. \<not> attempt_fails (net a))"
      unfolding run_def download_segment_def Let_def by (rule attempts_loop_success_iff)
    moreover have "(\<exists>a\<in>set [1..<retries + 1]. \<not> attempt_fails (net a))
                     \<longleftrightarrow> (\<exists>a. 1 \<le> a \<and> a \<le> retries \<and> \<not> attempt_fails (net a))"
      by (auto simp del: upt_Suc)
    moreover have "(\<exists>p. snd run = Inr p) \<longleftrightarrow> snd run = Inr local"
      using success(2) by auto
    ultimately show ?thesis by simp
  qed
  have others: "fmlookup (state n) p = fmlookup fs p" if "p \<noteq> temp \<and> p \<noteq> local" for n p
  proof (cases "n < length evs")
    case True
    from quiet_other[OF early[OF True], of p fs] that show ?thesis by (simp add: state_def)
  next
    case False
    show ?thesis
    proof (cases "snd run")
      case (Inl e)
      from False have "take n evs = evs" by simp
      with quiet_other[OF failed[OF Inl], of p fs] that show ?thesis by (simp add: state_def)
    next
      case (Inr r)
      from final[OF Inr, of n] False that show ?thesis by simp
    qed
  qed
  have before: "fmlookup (state n) local = fmlookup fs local" if "n < length evs" for n
    using quiet_other[OF early[OF that], of local fs] ne by (simp add: state_def)
  have result: "case snd run of
            Inr r \<Rightarrow> r = local \<and> evs \<noteq> [] \<and> last evs = Rename temp local
                     \<and> path_exists (state (length evs)) local
                     \<and> \<not> path_exists (state (length evs)) temp
                     \<and> fmlookup (state (length evs)) local
                         = fmlookup (state (length evs - 1)) temp
          | Inl e \<Rightarrow> fmlookup (state (length evs)) local = fmlookup fs local"
  proof (cases "snd run")
    case (Inl e)
    from quiet_other[OF failed[OF Inl], of local fs] ne Inl show ?thesis
      by (simp add: state_def)
  next
    case (Inr r)
    from success[OF Inr] final[OF Inr, of "length evs"] Inr show ?thesis by auto
  qed
  have present: "path_exists (state n) temp \<or> path_exists (state n) local"
    if w: "\<exists>p x. Open p x \<in> set (take n evs) \<or> Write p x \<in> set (take n evs)" for n
  proof (cases "n < length evs")
    case True
    from quiet_opened[OF early[OF True] w, of fs] show ?thesis by (simp add: state_def)
  next
    case False
    show ?thesis
    proof (cases "snd run")
      case (Inl e)
      from False have t: "take n evs = evs" by simp
      from quiet_opened[OF failed[OF Inl], of fs] w t show ?thesis by (simp add: state_def)
    next
      case (Inr r)
      from final[OF Inr, of n] False show ?thesis by simp
    qed
  qed
  from ne others before iff result present
  have "temp \<noteq> local
      \<and> (\<forall>n p. p \<noteq> temp \<and> p \<noteq> local \<longrightarrow> fmlookup (state n) p = fmlookup fs p)
      \<and> (\<forall>n. n < length evs \<longrightarrow> fmlookup (state n) local = fmlookup fs local)
      \<and> ((\<exists>a. 1 \<le> a \<and> a \<le> retries \<and> \<not> attempt_fails (net a)) \<longleftrightarrow> snd run = Inr local)
      \<and> (case snd run of
            Inr r \<Rightarrow> r = local \<and> evs \<noteq> [] \<and> last evs = Rename temp local
                     \<and> path_exists (state (length evs)) local
                     \<and> \<not> path_exists (state (length evs)) temp
                     \<and> fmlookup (state (length evs)) local
                         = fmlookup (state (length evs - 1)) temp
          | Inl e \<Rightarrow> fmlookup (state (length evs)) local = fmlookup fs local)
      \<and> (\<forall>n. (\<exists>p x. Open p x \<in> set (take n evs) \<or> Write p x \<in> set (take n evs)) \<longrightarrow>
               path_exists (state n) temp \<or> path_exists (state n) local)"
    by blast
  then show ?thesis
    unfolding Let_def local_def temp_def run_def evs_def state_def .
qed

text \<open>
  An instance of C4: the first attempt breaks after one chunk and the second succeeds, so
  the run returns the final path; after the first chunk has been written (four events) the
  temporary file exists.
\<close>

theorem download_segment_temp_then_rename_witness:
  "\<not> attempt_fails (resuming_server 2)
   \<and> snd (download_segment fmempty resuming_server ''u'' ''/d'' 1 1 5) = Inr (local_filename ''/d'' 1)
   \<and> Write ''/d/segment_1.ts.part'' ''cd''
       \<in> set (take 4 (fst (download_segment fmempty resuming_server ''u'' ''/d'' 1 1 5)))
   \<and> (path_exists (apply_events (take 4 (fst (download_segment fmempty resuming_server ''u'' ''/d'' 1 1 5))) fmempty)
        ''/d/segment_1.ts.part''
      \<or> path_exists (apply_events (take 4 (fst (download_segment fmempty resuming_server ''u'' ''/d'' 1 1 5))) fmempty)
        ''/d/segment_1.ts'')"
proof -
  have h: "Write ''/d/segment_1.ts.part'' ''cd''
     \<in> set (take 4 (fst (download_segment fmempty resuming_server ''u'' ''/d'' 1 1 5)))"
    by code_simp
  have g: "(1::nat) \<le> 2 \<and> (2::nat) \<le> 5 \<and> \<not> attempt_fails (resuming_server 2)"
    by (simp add: attempt_fails_def resuming_server_def raise_for_status_def)
  have t: "temp_filename ''/d'' 1 = ''/d/segment_1.ts.part''" by code_simp
  have l: "local_filename ''/d'' 1 = ''/d/segment_1.ts''" by code_simp
  note inst = download_segment_temp_then_rename[of "''/d''" 1 fmempty resuming_server "''u''" 1 5,
               unfolded Let_def]
  from inst have "(\<exists>a. 1 \<le> a \<and> a \<le> 5 \<and> \<not> attempt_fails (resuming_server a))
                   \<longleftrightarrow> snd (download_segment fmempty resuming_server ''u'' ''/d'' 1 1 5)
                         = Inr (local_filename ''/d'' 1)"
    by blast
  with g have r: "snd (download_segment fmempty resuming_server ''u'' ''/d'' 1 1 5)
                    = Inr (local_filename ''/d'' 1)"
    by blast
  from inst
  have "\<forall>n. (\<exists>p x. Open p x \<in> set (take n (fst (download_segment fmempty resuming_server ''u'' ''/d'' 1 1 5)))
              \<or> Write p x \<in> set (take n (fst (download_segment fmempty resuming_server ''u'' ''/d'' 1 1 5)))) \<longrightarrow>
          path_exists (apply_events (take n (fst (download_segment fmempty resuming_server ''u'' ''/d'' 1 1 5))) fmempty)
            (temp_filename ''/d'' 1)
          \<or> path_exists (apply_events (take n (fst (download_segment fmempty resuming_server ''u'' ''/d'' 1 1 5))) fmempty)
            (local_filename ''/d'' 1)"
    by blast
  with h g r show ?thesis unfolding t l by blast
qed

text \<open>
  Claim C5 (retries and backoff). Let the attempts 1 to \<open>k\<close> fail and, if \<open>k < retries\<close>, let
  attempt \<open>k + 1\<close> not fail (every run is of this kind for exactly one \<open>k \<le> retries\<close>). Then
  the requests and sleeps of the run are: for each failed attempt \<open>a\<close> one request followed
  by a sleep of \<open>RETRY_BACKOFF ^ a\<close> seconds, and then, if \<open>k < retries\<close>, the request of the
  retry that succeeds. The run returns the final path if \<open>k < retries\<close> and raises the
  \<open>RuntimeError\<close> that names the segment if all \<open>retries\<close> attempts failed. Whatever the
  temporary file holds at some moment is still there, as a prefix of its content, at every
  later moment before the rename, and after a failed run at the end: the partial file is
  never removed nor truncated.
\<close>

theorem download_segment_retries_with_backoff:
  "k \<le> retries \<and> (\<forall>a. 1 \<le> a \<and> a \<le> k \<longrightarrow> attempt_fails (net a))
     \<and> (k < retries \<longrightarrow> \<not> attempt_fails (net (k + 1))) \<Longrightarrow>
   (let temp = temp_filename directory idx;
        local = local_filename directory idx;
        run = download_segment fs net u directory idx total_n retries;
        evs = fst run;
        downloaded = (if path_exists fs temp then getsize fs temp else 0);
        hdrs = HEADERS @ (if downloaded > 0
                          then [(''Range'', ''bytes='' @ str_nat downloaded @ ''-'')]
                          else []);
        state = (\<lambda>n. apply_events (take n evs) fs)
    in filter timing evs
         = concat (map (\<lambda>a. [Get u hdrs, Sleep (RETRY_BACKOFF ^ a)]) [1..<k + 1])
           @ (if k < retries then [Get u hdrs] else [])
       \<and> snd run
         = (if k < retries then Inr local
            else Inl (RuntimeError (''Failed to download segment '' @ str_nat idx @ '' after ''
                                     @ str_nat retries @ '' retries.'')))
       \<and> (\<forall>n m c. n \<le> m \<and> (m < length evs \<or> k = retries)
                    \<and> fmlookup (state n) temp = Some c \<longrightarrow>
             (\<exists>s. fmlookup (state m) temp = Some (c @ s))))"
proof -
  assume a: "k \<le> retries \<and> (\<forall>a. 1 \<le> a \<and> a \<le> k \<longrightarrow> attempt_fails (net a))
     \<and> (k < retries \<longrightarrow> \<not> attempt_fails (net (k + 1)))"
  define temp where "temp = temp_filename directory idx"
  define local where "local = local_filename directory idx"
  define run where "run = download_segment fs net u directory idx total_n retries"
  define evs where "evs = fst run"
  define downloaded where "downloaded = (if path_exists fs temp then getsize fs temp else 0)"
  define hdrs where "hdrs = HEADERS @ (if downloaded > 0
                          then [(''Range'', ''bytes='' @ str_nat downloaded @ ''-'')]
                          else [])"
  define state where "state = (\<lambda>n. apply_events (take n evs) fs)"
  from a have k: "k \<le> retries"
    and fails: "\<forall>a. 1 \<le> a \<and> a \<le> k \<longrightarrow> attempt_fails (net a)"
    and ok: "k < retries \<longrightarrow> \<not> attempt_fails (net (k + 1))" by blast+
  from download_segment_run[OF k fails ok downloaded_def[unfolded temp_def] hdrs_def,
         of u total_n]
  obtain body where body:
    "run = (if k < retries then (body @ [Rename temp local], Inr local)
            else (body, Inl (RuntimeError (''Failed to download segment '' @ str_nat idx
                                          @ '' after '' @ str_nat retries @ '' retries.''))))"
    "list_all (quiet temp) body"
    "filter timing body
       = concat (map (\<lambda>a. [Get u hdrs, Sleep (RETRY_BACKOFF ^ a)]) [1..<k + 1])
         @ (if k < retries then [Get u hdrs] else [])"
    unfolding run_def temp_def local_def by blast
  have evs_eq: "evs = (if k < retries then body @ [Rename temp local] else body)"
    using body(1) by (simp add: evs_def)
  have sched: "filter timing evs
         = concat (map (\<lambda>a. [Get u hdrs, Sleep (RETRY_BACKOFF ^ a)]) [1..<k + 1])
           @ (if k < retries then [Get u hdrs] else [])"
    using body(3) by (simp add: evs_eq)
  have res: "snd run
         = (if k < retries then Inr local
            else Inl (RuntimeError (''Failed to download segment '' @ str_nat idx @ '' after ''
                                     @ str_nat retries @ '' retries.'')))"
    using body(1) by simp
  have keep: "\<exists>s. fmlookup (state m) temp = Some (c @ s)"
    if nm: "n \<le> m" and m: "m < length evs \<or> k = retries"
      and c: "fmlookup (state n) temp = Some c" for n m c
  proof -
    have "take m evs = take m body"
    proof (cases "k < retries")
      case True
      with m k have "m \<le> length body" by (simp add: evs_eq)
      with True show ?thesis by (simp add: evs_eq)
    next
      case False
      then show ?thesis by (simp add: evs_eq)
    qed
    with body(2) have "list_all (quiet temp) (take m evs)"
      by (simp add: list_all_iff) (meson in_set_takeD)
    from quiet_between[OF this nm c[unfolded state_def]] show ?thesis
      by (simp add: state_def)
  qed
  from sched res keep
  have "filter timing evs
         = concat (map (\<lambda>a. [Get u hdrs, Sleep (RETRY_BACKOFF ^ a)]) [1..<k + 1])
           @ (if k < retries then [Get u hdrs] else [])
       \<and> snd run
         = (if k < retries then Inr local
            else Inl (RuntimeError (''Failed to download segment '' @ str_nat idx @ '' after ''
                                     @ str_nat retries @ '' retries.'')))
       \<and> (\<forall>n m c. n \<le> m \<and> (m < length evs \<or> k = retries)
                    \<and> fmlookup (state n) temp = Some c \<longrightarrow>
             (\<exists>s. fmlookup (state m) temp = Some (c @ s)))"
    by blast
  then show ?thesis
    unfolding Let_def temp_def local_def run_def evs_def downloaded_def hdrs_def state_def .
qed

text \<open>
  Two instances of C5: a stream that breaks once and then succeeds (one sleep of 2 seconds,
  then the retry), and a server that never answers (five attempts, sleeps of 2, 4, 8, 16
  and 32 seconds, then the error).
\<close>

theorem download_segment_retries_with_backoff_witness:
  "snd (download_segment partial_fs resuming_server ''u'' ''/d'' 1 1 5)
     = Inr (local_filename ''/d'' 1)
   \<and> filter timing (fst (download_segment partial_fs resuming_server ''u'' ''/d'' 1 1 5))
     = [Get ''u'' [(''User-Agent'', ''Mozilla/5.0''), (''Range'', ''bytes=2-'')], Sleep 2,
        Get ''u'' [(''User-Agent'', ''Mozilla/5.0''), (''Range'', ''bytes=2-'')]]
   \<and> snd (download_segment partial_fs dead_server ''u'' ''/d'' 1 1 5)
     = Inl (RuntimeError ''Failed to download segment 1 after 5 retries.'')
   \<and> filter timing (fst (download_segment partial_fs dead_server ''u'' ''/d'' 1 1 5))
     = [Get ''u'' [(''User-Agent'', ''Mozilla/5.0''), (''Range'', ''bytes=2-'')], Sleep 2,
        Get ''u'' [(''User-Agent'', ''Mozilla/5.0''), (''Range'', ''bytes=2-'')], Sleep 4,
        Get ''u'' [(''User-Agent'', ''Mozilla/5.0''), (''Range'', ''bytes=2-'')], Sleep 8,
        Get ''u'' [(''User-Agent'', ''Mozilla/5.0''), (''Range'', ''bytes=2-'')], Sleep 16,
        Get ''u'' [(''User-Agent'', ''Mozilla/5.0''), (''Range'', ''bytes=2-'')], Sleep 32]"
proof -
  let ?hdrs = "HEADERS @ (if (if path_exists partial_fs (temp_filename ''/d'' 1)
                              then getsize partial_fs (temp_filename ''/d'' 1) else 0) > 0
               then [(''Range'', ''bytes='' @ str_nat (if path_exists partial_fs (temp_filename ''/d'' 1)
                              then getsize partial_fs (temp_filename ''/d'' 1) else 0) @ ''-'')]
               else [])"
  have h1: "(1::nat) \<le> 5 \<and> (\<forall>a. 1 \<le> a \<and> a \<le> 1 \<longrightarrow> attempt_fails (resuming_server a))
              \<and> ((1::nat) < 5 \<longrightarrow> \<not> attempt_fails (resuming_server (1 + 1)))"
    by (auto simp: attempt_fails_def resuming_server_def raise_for_status_def)
  have h5: "(5::nat) \<le> 5 \<and> (\<forall>a. 1 \<le> a \<and> a \<le> 5 \<longrightarrow> attempt_fails (dead_server a))
              \<and> ((5::nat) < 5 \<longrightarrow> \<not> attempt_fails (dead_server (5 + 1)))"
    by (simp add: attempt_fails_def dead_server_def)
  have m: "''Failed to download segment '' @ str_nat 1 @ '' after '' @ str_nat 5 @ '' retries.''
             = ''Failed to download segment 1 after 5 retries.''"
    by code_simp
  have s1: "concat (map (\<lambda>a. [Get ''u'' ?hdrs, Sleep (RETRY_BACKOFF ^ a)]) [1..<1 + 1])
              @ (if (1::nat) < 5 then [Get ''u'' ?hdrs] else [])
     = [Get ''u'' [(''User-Agent'', ''Mozilla/5.0''), (''Range'', ''bytes=2-'')], Sleep 2,
        Get ''u'' [(''User-Agent'', ''Mozilla/5.0''), (''Range'', ''bytes=2-'')]]"
    by code_simp
  have s5: "concat (map (\<lambda>a. [Get ''u'' ?hdrs, Sleep (RETRY_BACKOFF ^ a)]) [1..<5 + 1])
              @ (if (5::nat) < 5 then [Get ''u'' ?hdrs] else [])
     = [Get ''u'' [(''User-Agent'', ''Mozilla/5.0''), (''Range'', ''bytes=2-'')], Sleep 2,
        Get ''u'' [(''User-Agent'', ''Mozilla/5.0''), (''Range'', ''bytes=2-'')], Sleep 4,
        Get ''u'' [(''User-Agent'', ''Mozilla/5.0''), (''Range'', ''bytes=2-'')], Sleep 8,
        Get ''u'' [(''User-Agent'', ''Mozilla/5.0''), (''Range'', ''bytes=2-'')], Sleep 16,
        Get ''u'' [(''User-Agent'', ''Mozilla/5.0''), (''Range'', ''bytes=2-'')], Sleep 32]"
    by code_simp
  have i1: "(if (1::nat) < 5 then Inr (local_filename ''/d'' 1)
            else Inl (RuntimeError (''Failed to download segment '' @ str_nat 1 @ '' after ''
                                     @ str_nat 5 @ '' retries.'')))
              = (Inr (local_filename ''/d'' 1) :: error + string)" by simp
  have i5: "(if (5::nat) < 5 then Inr (local_filename ''/d'' 1)
            else Inl (RuntimeError (''Failed to download segment '' @ str_nat 1 @ '' after ''
                                     @ str_nat 5 @ '' retries.'')))
              = (Inl (RuntimeError ''Failed to download segment 1 after 5 retries.'') :: error + string)"
    using m by simp
  from download_segment_retries_with_backoff[OF h1, of "''/d''" 1 partial_fs "''u''" 1]
       download_segment_retries_with_backoff[OF h5, of "''/d''" 1 partial_fs "''u''" 1]
  show ?thesis unfolding Let_def s1 s5 i1 i5 by blast
qed

text \<open>
  Claim C6 (unique output name). For every file system, the path that
  \<open>ensure_unique_filename\<close> returns does not exist; it is the requested path when that one
  does not exist; otherwise it is the requested name with the suffix \<open>_k\<close> for the least
  \<open>k \<ge> 1\<close> whose name is free.
\<close>

theorem ensure_unique_filename_fresh:
  "\<not> path_exists fs (ensure_unique_filename fs directory filename extension)
   \<and> (\<not> path_exists fs (path_join directory (filename @ extension)) \<longrightarrow>
        ensure_unique_filename fs directory filename extension
          = path_join directory (filename @ extension))
   \<and> (path_exists fs (path_join directory (filename @ extension)) \<longrightarrow>
        (\<exists>k\<ge>1. ensure_unique_filename fs directory filename extension
                  = path_join directory (filename @ ''_'' @ str_nat k @ extension)
              \<and> (\<forall>j. 1 \<le> j \<and> j < k \<longrightarrow>
                    path_exists fs (path_join directory (filename @ ''_'' @ str_nat j @ extension)))))"
  unfolding ensure_unique_filename_def
  using unique_loop_free[of fs directory filename extension 1 "path_join directory (filename @ extension)"]
        unique_loop_first[of fs "path_join directory (filename @ extension)" directory filename extension 1]
        unique_loop_numbered[of fs "path_join directory (filename @ extension)" 1 directory filename extension]
  by (simp add: numbered_def)

text \<open>
  An instance of C6: with \<open>movie.mp4\<close> and \<open>movie_1.mp4\<close> present the result is
  \<open>movie_2.mp4\<close>; in an empty directory it is \<open>movie.mp4\<close>.
\<close>

theorem ensure_unique_filename_fresh_witness:
  "path_exists two_movies (path_join ''d'' (''movie'' @ ''.mp4''))
   \<and> ensure_unique_filename two_movies ''d'' ''movie'' ''.mp4'' = ''d/movie_2.mp4''
   \<and> \<not> path_exists two_movies ''d/movie_2.mp4''
   \<and> \<not> path_exists fmempty (path_join ''d'' (''movie'' @ ''.mp4''))
   \<and> ensure_unique_filename fmempty ''d'' ''movie'' ''.mp4'' = ''d/movie.mp4''"
proof -
  have a: "path_exists two_movies (path_join ''d'' (''movie'' @ ''.mp4''))" by code_simp
  have b: "\<not> path_exists fmempty (path_join ''d'' (''movie'' @ ''.mp4''))" by code_simp
  have c: "path_join ''d'' (''movie'' @ ''.mp4'') = ''d/movie.mp4''" by code_simp
  have d: "ensure_unique_filename two_movies ''d'' ''movie'' ''.mp4'' = ''d/movie_2.mp4''" by code_simp
  from ensure_unique_filename_fresh[of two_movies "''d''" "''movie''" "''.mp4''"]
       ensure_unique_filename_fresh[of fmempty "''d''" "''movie''" "''.mp4''"]
       a b c d
  show ?thesis by simp
qed

text \<open>
  Claim C7 (first failing job), as amended. When the first job that is seen to fail has
  index \<open>idx\<close>, the run of \<open>download_and_merge_segments\<close> is exactly: create the directory,
  announce, build the pool, submit every job, print a line that names \<open>idx\<close>, shut the pool
  down without cancelling, exit with status 1. Every job was submitted before the failure
  was seen, no cancellation is issued, and neither manifest, muxer nor removal is reached.
\<close>

theorem merge_fails_fast_without_cancel:
  "0 < parallel \<and> (\<forall>c\<in>set before. \<exists>p. snd c = Inr p) \<Longrightarrow>
   download_and_merge_segments fs abspath segments directory filename parallel
       (before @ (idx, Inl e) # rest) mux_code mux_out
     = ([Makedirs directory,
         Print (''[+] Starting parallel download of '' @ str_nat (length segments)
                @ '' segments with '' @ str_int parallel @ '' workers''),
         Pool parallel]
        @ map (\<lambda>(i, seg). Submit seg directory (i + 1) (length segments)) (enumerate 0 segments)
        @ [Print (''[!] Segment '' @ str_nat idx @ '' failed to download: '' @ message e),
           Pool_shutdown False, Exit 1],
        Exited 1)"
proof -
  assume a: "0 < parallel \<and> (\<forall>c\<in>set before. \<exists>p. snd c = Inr p)"
  then have "\<forall>c\<in>set before. \<exists>p. snd c = Inr p" by blast
  from collect_first_failure[OF this, of idx e rest "[]"]
  have "collect (before @ (idx, Inl e) # rest) [] = Inl (idx, e)" .
  with a show ?thesis
    by (simp add: download_and_merge_segments_def Let_def)
qed

text \<open>
  An instance of C7: three segments, segment 1 finishes, then segment 3 fails.
\<close>

theorem merge_fails_fast_without_cancel_witness:
  "download_and_merge_segments fmempty id [''u1'', ''u2'', ''u3''] ''/d'' ''movie'' 4
       ([(1, Inr ''/d/segment_1.ts'')]
          @ (3, Inl (RuntimeError ''Failed to download segment 3 after 5 retries.''))
          # [(2, Inr ''/d/segment_2.ts'')]) 0 None
     = ([Makedirs ''/d'',
         Print (''[+] Starting parallel download of '' @ str_nat (length [''u1'', ''u2'', ''u3''])
                @ '' segments with '' @ str_int 4 @ '' workers''),
         Pool 4]
        @ map (\<lambda>(i, seg). Submit seg ''/d'' (i + 1) (length [''u1'', ''u2'', ''u3'']))
              (enumerate 0 [''u1'', ''u2'', ''u3''])
        @ [Print (''[!] Segment '' @ str_nat 3 @ '' failed to download: ''
                  @ message (RuntimeError ''Failed to download segment 3 after 5 retries.'')),
           Pool_shutdown False, Exit 1],
        Exited 1)"
proof -
  have h: "(0::int) < 4 \<and> (\<forall>c\<in>set [(1::nat, Inr ''/d/segment_1.ts'' :: error + string)]. \<exists>p. snd c = Inr p)"
    by simp
  from merge_fails_fast_without_cancel[OF h] show ?thesis .
qed

text \<open>
  C7 as stated fails in its cancellation part: with one worker and three segments, the job
  of segment 1 fails while the jobs of segments 2 and 3 are still queued. All three jobs
  had been submitted before, and the pool is shut down with \<open>cancel_futures\<close> false: the
  queued jobs are not cancelled.
\<close>

theorem merge_cancellation_counterexample:
  "download_and_merge_segments fmempty id [''u1'', ''u2'', ''u3''] ''/d'' ''movie'' 1 one_failed 0 None
     = ([Makedirs ''/d'',
         Print ''[+] Starting parallel download of 3 segments with 1 workers'',
         Pool 1,
         Submit ''u1'' ''/d'' 1 3, Submit ''u2'' ''/d'' 2 3, Submit ''u3'' ''/d'' 3 3,
         Print ''[!] Segment 1 failed to download: Failed to download segment 1 after 5 retries.'',
         Pool_shutdown False, Exit 1],
        Exited 1)"
  by code_simp

text \<open>
  Claim C8 (resume). Let the temporary file exist with content \<open>c\<close> of size \<open>S > 0\<close> when
  \<open>download_segment\<close> starts, let the attempts 1 to \<open>k\<close> fail and, if \<open>k < retries\<close>, let
  attempt \<open>k + 1\<close> not fail. Then the requests of the run are one per attempt made, each
  with the header \<open>Range: bytes=S-\<close>; the file is only ever opened in append mode and \<open>c\<close>
  stays a prefix of its content in every state; at the end the file (the final file after
  a success, the temporary file after a failure) holds \<open>c\<close> followed by the bytes received
  in all attempts made, in order; and the progress bars are exactly one per accepted
  response, starting at \<open>S\<close>, with total \<open>Content-Length + S\<close>, or unknown when the response
  has no such header.
\<close>

theorem download_segment_resumes_from_size:
  "fmlookup fs (temp_filename directory idx) = Some c \<and> c \<noteq> []
     \<and> k \<le> retries \<and> (\<forall>a. 1 \<le> a \<and> a \<le> k \<longrightarrow> attempt_fails (net a))
     \<and> (k < retries \<longrightarrow> \<not> attempt_fails (net (k + 1))) \<Longrightarrow>
   (let temp = temp_filename directory idx;
        local = local_filename directory idx;
        run = download_segment fs net u directory idx total_n retries;
        evs = fst run;
        hdrs = HEADERS @ [(''Range'', ''bytes='' @ str_nat (length c) @ ''-'')];
        state = (\<lambda>n. apply_events (take n evs) fs)
    in filter timing evs
         = concat (map (\<lambda>a. [Get u hdrs, Sleep (RETRY_BACKOFF ^ a)]) [1..<k + 1])
           @ (if k < retries then [Get u hdrs] else [])
       \<and> (\<forall>p m. Open p m \<in> set evs \<longrightarrow> p = temp \<and> m = ''ab'')
       \<and> (\<forall>n. n < length evs \<longrightarrow> (\<exists>s. fmlookup (state n) temp = Some (c @ s)))
       \<and> fmlookup (apply_events evs fs) (if k < retries then local else temp)
           = Some (c @ concat (map (\<lambda>a. received (net a)) (attempts_made k retries)))
       \<and> filter is_progress evs
           = concat (map (\<lambda>a. bar_of (length c) (net a)) (attempts_made k retries)))"
proof -
  assume a: "fmlookup fs (temp_filename directory idx) = Some c \<and> c \<noteq> []
     \<and> k \<le> retries \<and> (\<forall>a. 1 \<le> a \<and> a \<le> k \<longrightarrow> attempt_fails (net a))
     \<and> (k < retries \<longrightarrow> \<not> attempt_fails (net (k + 1)))"
  define temp where "temp = temp_filename directory idx"
  define local where "local = local_filename directory idx"
  define run where "run = download_segment fs net u directory idx total_n retries"
  define evs where "evs = fst run"
  define hdrs where "hdrs = HEADERS @ [(''Range'', ''bytes='' @ str_nat (length c) @ ''-'')]"
  define state where "state = (\<lambda>n. apply_events (take n evs) fs)"
  from a have c: "fmlookup fs temp = Some c" and cne: "c \<noteq> []" and k: "k \<le> retries"
    and fails: "\<forall>a. 1 \<le> a \<and> a \<le> k \<longrightarrow> attempt_fails (net a)"
    and ok: "k < retries \<longrightarrow> \<not> attempt_fails (net (k + 1))"
    unfolding temp_def by blast+
  have ne: "temp \<noteq> local" unfolding temp_def local_def by (rule temp_not_local)
  have d: "length c = (if path_exists fs (temp_filename directory idx)
                       then getsize fs (temp_filename directory idx) else 0)"
    using c by (simp add: path_exists_def getsize_def temp_def)
  have h: "hdrs = HEADERS @ (if length c > 0
                             then [(''Range'', ''bytes='' @ str_nat (length c) @ ''-'')]
                             else [])"
    using cne by (simp add: hdrs_def)
  from download_segment_run[OF k fails ok d h, of u total_n]
  obtain body where body:
    "run = (if k < retries then (body @ [Rename temp local], Inr local)
            else (body, Inl (RuntimeError (''Failed to download segment '' @ str_nat idx
                                          @ '' after '' @ str_nat retries @ '' retries.''))))"
    "list_all (quiet temp) body"
    "filter timing body
       = concat (map (\<lambda>a. [Get u hdrs, Sleep (RETRY_BACKOFF ^ a)]) [1..<k + 1])
         @ (if k < retries then [Get u hdrs] else [])"
    "filter is_progress body
       = concat (map (\<lambda>a. bar_of (length c) (net a)) (attempts_made k retries))"
    "concat (map written body)
       = concat (map (\<lambda>a. received (net a)) (attempts_made k retries))"
    unfolding run_def temp_def local_def by blast
  have evs_eq: "evs = (if k < retries then body @ [Rename temp local] else body)"
    using body(1) by (simp add: evs_def)
  have sched: "filter timing evs
         = concat (map (\<lambda>a. [Get u hdrs, Sleep (RETRY_BACKOFF ^ a)]) [1..<k + 1])
           @ (if k < retries then [Get u hdrs] else [])"
    using body(3) by (simp add: evs_eq)
  have bars: "filter is_progress evs
           = concat (map (\<lambda>a. bar_of (length c) (net a)) (attempts_made k retries))"
    using body(4) by (simp add: evs_eq)
  have opens: "p = temp \<and> m = ''ab''" if "Open p m \<in> set evs" for p m
  proof -
    from that have "Open p m \<in> set body" by (auto simp: evs_eq split: if_splits)
    with body(2) show ?thesis by (auto simp: list_all_iff)
  qed
  have early: "\<exists>s. fmlookup (state n) temp = Some (c @ s)" if "n < length evs" for n
  proof -
    have "take n evs = take n body" using that by (auto simp: evs_eq split: if_splits)
    with body(2) have "list_all (quiet temp) (take n evs)"
      by (simp add: list_all_iff) (meson in_set_takeD)
    from quiet_grows[OF this c] show ?thesis by (auto simp: state_def)
  qed
  have mid: "fmlookup (apply_events body fs) temp
               = Some (c @ concat (map (\<lambda>a. received (net a)) (attempts_made k retries)))"
    using quiet_grows[OF body(2) c] body(5) by simp
  have fin: "fmlookup (apply_events evs fs) (if k < retries then local else temp)
           = Some (c @ concat (map (\<lambda>a. received (net a)) (attempts_made k retries)))"
    using mid by (simp add: evs_eq apply_events_append)
  from sched opens early fin bars
  have "filter timing evs
         = concat (map (\<lambda>a. [Get u hdrs, Sleep (RETRY_BACKOFF ^ a)]) [1..<k + 1])
           @ (if k < retries then [Get u hdrs] else [])
       \<and> (\<forall>p m. Open p m \<in> set evs \<longrightarrow> p = temp \<and> m = ''ab'')
       \<and> (\<forall>n. n < length evs \<longrightarrow> (\<exists>s. fmlookup (state n) temp = Some (c @ s)))
       \<and> fmlookup (apply_events evs fs) (if k < retries then local else temp)
           = Some (c @ concat (map (\<lambda>a. received (net a)) (attempts_made k retries)))
       \<and> filter is_progress evs
           = concat (map (\<lambda>a. bar_of (length c) (net a)) (attempts_made k retries))"
    by blast
  then show ?thesis
    unfolding Let_def temp_def local_def run_def evs_def hdrs_def state_def .
qed

text \<open>
  An instance of C8: a partial file \<open>ab\<close>; the first response breaks after \<open>cd\<close>, the second
  delivers \<open>cdef\<close>; both have \<open>Content-Length: 4\<close>. The final file holds \<open>abcdcdef\<close> and
  both progress bars have total 6 and start at 2.
\<close>

theorem download_segment_resumes_from_size_witness:
  "fmlookup partial_fs (temp_filename ''/d'' 1) = Some ''ab''
   \<and> fmlookup (apply_events (fst (download_segment partial_fs resuming_server ''u'' ''/d'' 1 1 5)) partial_fs)
       (local_filename ''/d'' 1) = Some ''abcdcdef''
   \<and> filter is_progress (fst (download_segment partial_fs resuming_server ''u'' ''/d'' 1 1 5))
       = [Progress (Some 6) 2, Progress (Some 6) 2]"
proof -
  have h: "fmlookup partial_fs (temp_filename ''/d'' 1) = Some ''ab'' \<and> ''ab'' \<noteq> []
     \<and> (1::nat) \<le> 5 \<and> (\<forall>a. 1 \<le> a \<and> a \<le> 1 \<longrightarrow> attempt_fails (resuming_server a))
     \<and> ((1::nat) < 5 \<longrightarrow> \<not> attempt_fails (resuming_server (1 + 1)))"
  proof -
    have "fmlookup partial_fs (temp_filename ''/d'' 1) = Some ''ab''" by code_simp
    then show ?thesis
      by (auto simp: attempt_fails_def resuming_server_def raise_for_status_def)
  qed
  have c: "''ab'' @ concat (map (\<lambda>a. received (resuming_server a)) (attempts_made 1 5))
             = ''abcdcdef''" by code_simp
  have b: "concat (map (\<lambda>a. bar_of (length ''ab'') (resuming_server a)) (attempts_made 1 5))
             = [Progress (Some 6) 2, Progress (Some 6) 2]" by code_simp
  have i: "(if (1::nat) < 5 then local_filename ''/d'' 1 else temp_filename ''/d'' 1)
             = local_filename ''/d'' 1" by simp
  from h download_segment_resumes_from_size[where fs = partial_fs and directory = "''/d''"
         and idx = 1 and c = "''ab''" and k = 1 and retries = 5 and net = resuming_server
         and u = "''u''" and total_n = 1]
  show ?thesis unfolding Let_def c b i by blast
qed

text \<open>
  Claim C9 (worker count), as amended. The option defaults to 4; \<open>main\<close> hands the parsed
  value unchanged to \<open>download_and_merge_segments\<close>, which hands it unchanged to the pool
  constructor, whatever the value; for a value below 1 the run ends with the constructor's
  own \<open>ValueError\<close>, after the directory has been created and the start line printed.
\<close>

theorem worker_count_passed_unchecked:
  "parallel_opt (parse_args u n d None) = 4
   \<and> main False True url_filename (parse_args u n d (Some p))
       = Download_and_merge u (case d of Some x \<Rightarrow> x | None \<Rightarrow> ''downloads'')
           (case n of Some x \<Rightarrow> if x \<noteq> [] then x else url_filename | None \<Rightarrow> url_filename) p
   \<and> Pool p \<in> set (fst (download_and_merge_segments fs abspath segments directory filename p
                            completions mux_code mux_out))
   \<and> (p \<le> 0 \<longrightarrow>
        download_and_merge_segments fs abspath segments directory filename p
            completions mux_code mux_out
          = ([Makedirs directory,
              Print (''[+] Starting parallel download of '' @ str_nat (length segments)
                     @ '' segments with '' @ str_int p @ '' workers''),
              Pool p],
             Raised (ValueError ''max_workers must be greater than 0'')))"
  by (auto simp: parse_args_def main_def download_and_merge_segments_def Let_def
           split: sum.splits prod.splits option.splits)

text \<open>
  An instance of C9 with the worker count -1.
\<close>

theorem worker_count_passed_unchecked_witness:
  "download_and_merge_segments fmempty id [''u1''] ''downloads'' ''movie'' (- 1) [] 0 None
     = ([Makedirs ''downloads'',
         Print (''[+] Starting parallel download of '' @ str_nat (length [''u1''])
                @ '' segments with '' @ str_int (- 1) @ '' workers''),
         Pool (- 1)],
        Raised (ValueError ''max_workers must be greater than 0''))"
proof -
  have h: "(- 1 :: int) \<le> 0" by simp
  from worker_count_passed_unchecked[of "[]" None None url_filename "- 1" fmempty id "[''u1'']"
         "''downloads''" "''movie''" "[]" 0 None] h
  show ?thesis by blast
qed

text \<open>
  C9 as stated fails: the program does not validate the worker count. With \<open>--parallel 0\<close>
  the value 0 reaches the pool constructor.
\<close>

theorem worker_count_counterexample:
  "main False True ''movie'' (parse_args ''http://h/movie.m3u8'' None None (Some 0))
     = Download_and_merge ''http://h/movie.m3u8'' ''downloads'' ''movie'' 0
   \<and> download_and_merge_segments fmempty id [''u1''] ''downloads'' ''movie'' 0 [] 0 None
     = ([Makedirs ''downloads'',
         Print ''[+] Starting parallel download of 1 segments with 0 workers'',
         Pool 0],
        Raised (ValueError ''max_workers must be greater than 0''))"
  by code_simp

text \<open>
  Claim C10 (direct downloads never resume). In every run of \<open>download_file\<close> the file that
  is opened did not exist, it is opened in mode \<open>wb\<close>, the request carries the plain headers
  (no \<open>Range\<close>), and the progress bar starts at 0. When the HEAD and GET requests are
  answered, this request, this opening and this progress bar do occur.
\<close>

theorem download_file_never_resumes:
  "(let run = download_file fs head answer u url_ext directory filename resume;
        evs = fst run
    in (\<forall>p m. Open p m \<in> set evs \<longrightarrow> m = ''wb'' \<and> \<not> path_exists fs p)
       \<and> (\<forall>u' h. Get u' h \<in> set evs \<longrightarrow> h = HEADERS)
       \<and> (\<forall>t i. Progress t i \<in> set evs \<longrightarrow> i = 0)
       \<and> (\<forall>h r. head = Inr h \<and> answer = Got r \<longrightarrow>
             Get u HEADERS \<in> set evs
             \<and> Open (ensure_unique_filename fs directory filename
                       (choose_extension url_ext (content_type h))) ''wb'' \<in> set evs
             \<and> Progress (case head_content_length h of Some n \<Rightarrow> Some (n + 0) | None \<Rightarrow> None) 0
                 \<in> set evs))"
  using ensure_unique_filename_free[of fs directory filename]
  by (auto simp: download_file_def Let_def
           split: sum.splits attempt.splits option.splits
           dest!: write_chunks_only_writes)

text \<open>
  An instance of C10: \<open>movie.mp4\<close> and \<open>movie_1.mp4\<close> exist and \<open>resume\<close> is true; the file
  opened is a new one, in mode \<open>wb\<close>.
\<close>

theorem download_file_never_resumes_witness:
  "Open (ensure_unique_filename two_movies ''d'' ''movie''
           (choose_extension [] (content_type \<lparr>content_type = ''video/mp4'', head_content_length = Some 4\<rparr>)))
        ''wb''
     \<in> set (fst (download_file two_movies video_head (ignoring_server 1) ''u'' [] ''d'' ''movie'' True))
   \<and> \<not> path_exists two_movies
         (ensure_unique_filename two_movies ''d'' ''movie''
           (choose_extension [] (content_type \<lparr>content_type = ''video/mp4'', head_content_length = Some 4\<rparr>)))"
proof -
  let ?h = "\<lparr>content_type = ''video/mp4'', head_content_length = Some 4\<rparr>"
  let ?r = "\<lparr>status = 200, content_length = Some 4, chunks = [''abcd''], stream_error = None\<rparr>"
  let ?evs = "fst (download_file two_movies video_head (ignoring_server 1) ''u'' [] ''d'' ''movie'' True)"
  let ?p = "ensure_unique_filename two_movies ''d'' ''movie'' (choose_extension [] (content_type ?h))"
  have h: "video_head = Inr ?h \<and> ignoring_server 1 = Got ?r"
    by (simp add: video_head_def ignoring_server_def)
  note t = download_file_never_resumes[of two_movies video_head "ignoring_server 1" "''u''" "[]"
             "''d''" "''movie''" True, unfolded Let_def]
  from t have a: "\<forall>h r. video_head = Inr h \<and> ignoring_server 1 = Got r \<longrightarrow>
                    Open (ensure_unique_filename two_movies ''d'' ''movie''
                           (choose_extension [] (content_type h))) ''wb'' \<in> set ?evs"
    by blast
  from a h have o: "Open ?p ''wb'' \<in> set ?evs" by blast
  from t have "\<forall>p m. Open p m \<in> set ?evs \<longrightarrow> m = ''wb'' \<and> \<not> path_exists two_movies p"
    by blast
  with o show ?thesis by blast
qed

end
